theory Spec2Isabelle
  imports Complex_Main "HOL-Library.Multiset" "HOL-Library.AList" "HOL-Library.Sublist"
begin

section \<open>Shared vocabulary\<close>

text \<open>
  The states of a future are those of \<^verbatim>\<open>concurrent.futures._base\<close>, which
  \<^verbatim>\<open>gui/acqmng.py\<close> and \<^verbatim>\<open>acq/align/delphi.py\<close> import by name.
  Python floats (times in seconds, positions in metres) are idealised as reals.
\<close>

datatype fstate = PENDING | RUNNING | CANCELLED | CANCELLED_AND_NOTIFIED | FINISHED

datatype error =
  CancelledError | RuntimeError | AssertionError | KeyError | IndexError | NameError |
  IOError | ValueError | PVCamError

datatype 'a outcome = Returned 'a | Raised error | Blocked

section \<open>ProgressiveFuture (gui/acqmng.py)\<close>

text \<open>
  \<^verbatim>\<open>time.time()\<close> is a clock that is read by position: the \<open>n\<close>-th reading of a run
  is \<open>clock w n\<close>, and \<open>tick\<close> counts the readings made so far. Each call of a progress
  subscriber \<^verbatim>\<open>fn(self, past, left)\<close> is recorded in \<open>reports\<close>, with the state the
  subscriber can read from the future it is handed.
\<close>

record report =
  rep_fn :: nat
  rep_state :: fstate
  rep_past :: real
  rep_left :: real

record world =
  clock :: "nat \<Rightarrow> real"
  tick :: nat
  reports :: "report list"

definition time_time :: "world \<Rightarrow> real \<times> world" where
  "time_time w = (clock w (tick w), w\<lparr>tick := Suc (tick w)\<rparr>)"

record dataarray =
  payload :: nat
  description :: string

record ('t, 'v) future =
  state :: fstate
  start_time :: real
  end_time :: real
  upd_callbacks :: "nat list"
  task_canceller :: "('t \<Rightarrow> 'v \<times> 't) option"
  result :: "dataarray list option"
  exception :: "error option"

text \<open>
  \<^verbatim>\<open>__init__(start=None, end=None)\<close>: \<^verbatim>\<open>start or (time.time() + 0.1)\<close> also
  replaces a start of 0, which Python treats as false; \<^verbatim>\<open>end\<close> likewise.
\<close>

definition ProgressiveFuture_init ::
  "real option \<Rightarrow> real option \<Rightarrow> world \<Rightarrow> ('t, 'v) future \<times> world" where
  "ProgressiveFuture_init start end w =
     (let (st, w1) = (case start of
                        Some s \<Rightarrow> if s \<noteq> 0 then (s, w)
                                  else (let (now, w') = time_time w in (now + 1 / 10, w'))
                      | None \<Rightarrow> (let (now, w') = time_time w in (now + 1 / 10, w')));
          en = (case end of Some e \<Rightarrow> if e \<noteq> 0 then e else st + 1 / 10
                          | None \<Rightarrow> st + 1 / 10)
      in (\<lparr>state = PENDING, start_time = st, end_time = en, upd_callbacks = [],
           task_canceller = None, result = None, exception = None\<rparr>, w1))"

text \<open>
  \<^verbatim>\<open>_report_update(fn)\<close>. An exception raised by the subscriber is caught and logged
  there, so the subscriber is an observer: it receives the triple and changes nothing.
\<close>

definition report_update :: "('t, 'v) future \<Rightarrow> nat \<Rightarrow> world \<Rightarrow> world" where
  "report_update self fn w =
     (let (now, w1) = time_time w;
          (past, left) =
            (if state self \<in> {CANCELLED, CANCELLED_AND_NOTIFIED, FINISHED} then
               (end_time self - start_time self, 0)
             else if state self = PENDING then
               (let past = now - start_time self;
                    left = end_time self - now;
                    past = (if past \<ge> 0 then - (1 / 10 ^ 9) else past);
                    left = (if left < 0 then 0 else left)
                in (past, left))
             else
               (let past = now - start_time self;
                    left = end_time self - now;
                    left = (if left < 0 then 0 else left)
                in (past, left)))
      in w1\<lparr>reports := reports w1 @
             [\<lparr>rep_fn = fn, rep_state = state self, rep_past = past, rep_left = left\<rparr>]\<rparr>)"

definition invoke_upd_callbacks :: "('t, 'v) future \<Rightarrow> world \<Rightarrow> world" where
  "invoke_upd_callbacks self w = foldl (\<lambda>w' fn. report_update self fn w') w (upd_callbacks self)"

definition set_start_time :: "real \<Rightarrow> ('t, 'v) future \<Rightarrow> world \<Rightarrow> ('t, 'v) future \<times> world" where
  "set_start_time val self w =
     (let self' = self\<lparr>start_time := val\<rparr> in (self', invoke_upd_callbacks self' w))"

definition set_end_time :: "real \<Rightarrow> ('t, 'v) future \<Rightarrow> world \<Rightarrow> ('t, 'v) future \<times> world" where
  "set_end_time val self w =
     (let self' = self\<lparr>end_time := val\<rparr> in (self', invoke_upd_callbacks self' w))"

text \<open>
  \<^verbatim>\<open>add_update_callback(fn)\<close>: the test is against \<^verbatim>\<open>(CANCELLED, FINISHED)\<close> only.
\<close>

definition add_update_callback :: "nat \<Rightarrow> ('t, 'v) future \<Rightarrow> world \<Rightarrow> ('t, 'v) future \<times> world" where
  "add_update_callback fn self w =
     (if state self \<notin> {CANCELLED, FINISHED} then
        (self\<lparr>upd_callbacks := upd_callbacks self @ [fn]\<rparr>, w)
      else (self, report_update self fn w))"

text \<open>
  \<^verbatim>\<open>cancel()\<close>. The canceller is called with the task it is bound to and may change
  it; whatever it returns (\<open>'v\<close>) is dropped. The done-callbacks of the base class
  (\<^verbatim>\<open>_invoke_callbacks\<close>) do not touch the progress state and are left out.
\<close>

definition cancel ::
  "('t, 'v) future \<Rightarrow> 't \<Rightarrow> world \<Rightarrow> bool \<times> ('t, 'v) future \<times> 't \<times> world" where
  "cancel self task w =
     (if state self = FINISHED then (False, self, task, w)
      else if state self \<in> {CANCELLED, CANCELLED_AND_NOTIFIED} then (True, self, task, w)
      else
        (case (if state self = RUNNING then
                 (case task_canceller self of
                    Some canceller \<Rightarrow> Some (snd (canceller task))
                  | None \<Rightarrow> None)
               else Some task) of
           None \<Rightarrow> (False, self, task, w)
         | Some task' \<Rightarrow>
             (let self' = self\<lparr>state := CANCELLED\<rparr>
              in (True, self', task', invoke_upd_callbacks self' w))))"

text \<open>
  \<^verbatim>\<open>futures.Future.set_running_or_notify_cancel\<close> of the base class: a cancelled future
  becomes \<open>CANCELLED_AND_NOTIFIED\<close> and the call returns False, a pending one becomes
  \<open>RUNNING\<close> and the call returns True, any other state raises \<^verbatim>\<open>RuntimeError\<close>.
\<close>

definition Future_set_running_or_notify_cancel ::
  "('t, 'v) future \<Rightarrow> error + bool \<times> ('t, 'v) future" where
  "Future_set_running_or_notify_cancel self =
     (if state self = CANCELLED then Inr (False, self\<lparr>state := CANCELLED_AND_NOTIFIED\<rparr>)
      else if state self = PENDING then Inr (True, self\<lparr>state := RUNNING\<rparr>)
      else Inl RuntimeError)"

text \<open>
  The override. Its local variable is named \<^verbatim>\<open>cancelled\<close> but holds the base class's
  return value, which is True when the future has just started running.
\<close>

definition set_running_or_notify_cancel ::
  "('t, 'v) future \<Rightarrow> world \<Rightarrow> error + bool \<times> ('t, 'v) future \<times> world" where
  "set_running_or_notify_cancel self w =
     (case Future_set_running_or_notify_cancel self of
        Inl e \<Rightarrow> Inl e
      | Inr (cancelled, self1) \<Rightarrow>
          (let (now, w1) = time_time w;
               self2 = self1\<lparr>start_time := now\<rparr>;
               self3 = (if cancelled then self2\<lparr>end_time := now\<rparr> else self2)
           in Inr (cancelled, self3, invoke_upd_callbacks self3 w1)))"

text \<open>
  \<^verbatim>\<open>set_result\<close> and \<^verbatim>\<open>set_exception\<close>: the base class stores the value and sets
  the state to \<open>FINISHED\<close> whatever the state was; the override then fixes the end time.
\<close>

definition set_result ::
  "dataarray list \<Rightarrow> ('t, 'v) future \<Rightarrow> world \<Rightarrow> ('t, 'v) future \<times> world" where
  "set_result r self w =
     (let self1 = self\<lparr>result := Some r, state := FINISHED\<rparr>;
          (now, w1) = time_time w;
          self2 = self1\<lparr>end_time := now\<rparr>
      in (self2, invoke_upd_callbacks self2 w1))"

definition set_exception ::
  "error \<Rightarrow> ('t, 'v) future \<Rightarrow> world \<Rightarrow> ('t, 'v) future \<times> world" where
  "set_exception e self w =
     (let self1 = self\<lparr>exception := Some e, state := FINISHED\<rparr>;
          (now, w1) = time_time w;
          self2 = self1\<lparr>end_time := now\<rparr>
      in (self2, invoke_upd_callbacks self2 w1))"

text \<open>
  What an executor does to a future between its creation and its end: it moves the end
  time any number of times and starts the future. A call that raises ends the sequence.
\<close>

datatype call = Set_end_time real | Set_running_or_notify_cancel

fun executor_calls :: "call list \<Rightarrow> ('t, 'v) future \<Rightarrow> world \<Rightarrow> ('t, 'v) future \<times> world" where
  "executor_calls [] self w = (self, w)"
| "executor_calls (Set_end_time v # cs) self w =
     (case set_end_time v self w of (self', w') \<Rightarrow> executor_calls cs self' w')"
| "executor_calls (Set_running_or_notify_cancel # cs) self w =
     (case set_running_or_notify_cancel self w of
        Inl e \<Rightarrow> (self, w)
      | Inr (b, self', w') \<Rightarrow> executor_calls cs self' w')"

text \<open>Concrete futures and clocks used to instantiate the theorems below.\<close>

definition world_at :: "real \<Rightarrow> world" where
  "world_at t = \<lparr>clock = (\<lambda>n. t + real n), tick = 0, reports = []\<rparr>"

definition pending_example :: "(unit, bool) future" where
  "pending_example = \<lparr>state = PENDING, start_time = 10, end_time = 20, upd_callbacks = [0],
                      task_canceller = None, result = None, exception = None\<rparr>"

definition refusing_canceller :: "unit \<Rightarrow> bool \<times> unit" where
  "refusing_canceller task = (False, task)"

definition running_example :: "(unit, bool) future" where
  "running_example = \<lparr>state = RUNNING, start_time = 10, end_time = 20, upd_callbacks = [0, 1],
                      task_canceller = Some refusing_canceller, result = None, exception = None\<rparr>"

text \<open>
  The invariant behind the bounds on progress reports: every report so far has a remaining
  time of at least 0, the elapsed times reported while running are sorted, and none of
  them exceeds the elapsed time the next reading of the clock gives.
\<close>

definition progress_inv :: "('t, 'v) future \<Rightarrow> world \<Rightarrow> bool" where
  "progress_inv self w \<longleftrightarrow>
     state self \<in> {PENDING, RUNNING} \<and>
     (\<forall>r \<in> set (reports w). 0 \<le> rep_left r) \<and>
     sorted (map rep_past (filter (\<lambda>r. rep_state r = RUNNING) (reports w))) \<and>
     (\<forall>r \<in> set (reports w). rep_state r = RUNNING \<longrightarrow>
        state self = RUNNING \<and> rep_past r \<le> clock w (tick w) - start_time self)"

section \<open>Acquisition task (gui/acqmng.py)\<close>

text \<open>
  The stream classes live in \<^verbatim>\<open>odemis.gui.model\<close>, outside this part of the
  repository. A stream carries the first class test of \<^verbatim>\<open>secom_weight_stream\<close> it
  passes as its \<open>kind\<close>, and \<open>sid\<close> stands for the identity of the Python object.
\<close>

datatype stream_kind =
  FluoStream | Optical_stream | EM_stream | SEMSpectrumMDStream | ARStream | SpectrumStream |
  Unexpected_stream

record stream =
  sid :: nat
  kind :: stream_kind
  name :: string
  estimateAcquisitionTime :: real

definition secom_weight_stream :: "stream \<Rightarrow> int" where
  "secom_weight_stream s =
     (case kind s of
        FluoStream \<Rightarrow> 100
      | Optical_stream \<Rightarrow> 90
      | EM_stream \<Rightarrow> (if name s = ''SEM CL'' then 40 else 50)
      | SEMSpectrumMDStream \<Rightarrow> 40
      | ARStream \<Rightarrow> 40
      | SpectrumStream \<Rightarrow> 40
      | Unexpected_stream \<Rightarrow> 0)"

datatype stream_action = Subscribe nat | Unsubscribe nat | Set_is_active nat bool

record task =
  streams :: "stream list"
  streamTimes :: "(stream \<times> real) list"
  current_stream :: "stream option"
  cancelled :: bool
  stream_log :: "stream_action list"

text \<open>
  \<^verbatim>\<open>AcquisitionTask.__init__\<close>. The dictionary \<^verbatim>\<open>_streamTimes\<close> is keyed by the
  stream objects, so a stream given twice is kept once. Its keys are listed in insertion
  order here (Python 2 leaves the order open); \<^verbatim>\<open>sorted(..., reverse=True)\<close> is the
  stable sort by decreasing weight.
\<close>

definition AcquisitionTask_init :: "stream list \<Rightarrow> task" where
  "AcquisitionTask_init ss =
     (let times = foldl (\<lambda>m s. AList.update s (estimateAcquisitionTime s) m) [] ss
      in \<lparr>streams = sort_key (\<lambda>s. - secom_weight_stream s) (map fst times),
          streamTimes = times, current_stream = None, cancelled = False, stream_log = []\<rparr>)"

text \<open>\<^verbatim>\<open>_image_listener\<close> and \<^verbatim>\<open>AcquisitionTask.cancel\<close>; both end in \<^verbatim>\<open>notify_all\<close>.\<close>

definition image_listener :: "task \<Rightarrow> task" where
  "image_listener self =
     (case current_stream self of
        Some s \<Rightarrow> self\<lparr>stream_log := stream_log self @ [Unsubscribe (sid s), Set_is_active (sid s) False]\<rparr>
      | None \<Rightarrow> self)"

definition task_cancel :: "task \<Rightarrow> unit \<times> task" where
  "task_cancel self =
     (let self = (case current_stream self of
                    Some s \<Rightarrow> self\<lparr>stream_log := stream_log self @
                                 [Unsubscribe (sid s), Set_is_active (sid s) False]\<rparr>
                  | None \<Rightarrow> self)
      in ((), self\<lparr>cancelled := True\<rparr>))"

text \<open>
  What can happen while \<^verbatim>\<open>run\<close> sits in \<^verbatim>\<open>self._condition.wait()\<close>: the current
  stream delivers its image (its \<^verbatim>\<open>raw\<close> list is then the given one), or another thread
  calls \<^verbatim>\<open>cancel()\<close> on the future. The wait ends when the listener or the task's
  canceller has run; with no notification left it never ends.
\<close>

datatype notification = Image_arrives "dataarray list" | Cancel_requested

fun condition_wait ::
  "notification list \<Rightarrow> (task, unit) future \<Rightarrow> task \<Rightarrow> world \<Rightarrow>
   (dataarray list option \<times> notification list \<times> (task, unit) future \<times> task \<times> world) option" where
  "condition_wait [] future self w = None"
| "condition_wait (Image_arrives raw # ns) future self w =
     Some (Some raw, ns, future, image_listener self, w)"
| "condition_wait (Cancel_requested # ns) future self w =
     (let invoked = (state future = RUNNING \<and> task_canceller future \<noteq> None) in
      case cancel future self w of
        (ok, future, self, w) \<Rightarrow>
          if invoked \<and> cancelled self then Some (None, ns, future, self, w)
          else condition_wait ns future self w)"

fun acquire_streams ::
  "stream list \<Rightarrow> notification list \<Rightarrow> real \<Rightarrow> dataarray list \<Rightarrow> real list \<Rightarrow>
   (task, unit) future \<Rightarrow> task \<Rightarrow> world \<Rightarrow>
   dataarray list outcome \<times> real list \<times> (task, unit) future \<times> task \<times> world" where
  "acquire_streams [] ns expected_time raw_images hist future self w =
     (Returned raw_images, hist, future, self, w)"
| "acquire_streams (s # ss) ns expected_time raw_images hist future self w =
     (let self = self\<lparr>current_stream := Some s,
                      stream_log := stream_log self @ [Subscribe (sid s), Set_is_active (sid s) True]\<rparr>
      in case condition_wait ns future self w of
           None \<Rightarrow> (Blocked, hist, future, self, w)
         | Some (None, ns, future, self, w) \<Rightarrow> (Raised CancelledError, hist, future, self, w)
         | Some (Some raw, ns, future, self, w) \<Rightarrow>
             if cancelled self then (Raised CancelledError, hist, future, self, w)
             else
               (let data = map (\<lambda>d. d\<lparr>description := name s\<rparr>) raw;
                    raw_images = raw_images @ data
                in case map_of (streamTimes self) s of
                     None \<Rightarrow> (Raised KeyError, hist, future, self, w)
                   | Some est \<Rightarrow>
                       (let expected_time = expected_time - est;
                            (now, w) = time_time w;
                            (future, w) = set_end_time (now + expected_time) future w
                        in acquire_streams ss ns expected_time raw_images
                             (hist @ [expected_time]) future self w)))"

text \<open>
  \<^verbatim>\<open>AcquisitionTask.run\<close>. \<open>hist\<close> records the value of the local variable
  \<^verbatim>\<open>expected_time\<close> each time it is assigned. The timer thread only re-sends progress
  reports and is not part of the model.
\<close>

definition run ::
  "notification list \<Rightarrow> (task, unit) future \<Rightarrow> task \<Rightarrow> world \<Rightarrow>
   dataarray list outcome \<times> real list \<times> (task, unit) future \<times> task \<times> world" where
  "run ns future self w =
     (if current_stream self \<noteq> None then (Raised AssertionError, [], future, self, w)
      else
        (let expected_time = sum_list (map snd (streamTimes self));
             (now, w) = time_time w;
             (future, w) = set_end_time (now + expected_time) future w
         in acquire_streams (streams self) ns expected_time [] [expected_time] future self w))"

text \<open>\<^verbatim>\<open>_executeTask(future, task.run)\<close>, the body of the acquisition thread.\<close>

definition executeTask ::
  "notification list \<Rightarrow> (task, unit) future \<Rightarrow> task \<Rightarrow> world \<Rightarrow>
   unit outcome \<times> real list \<times> (task, unit) future \<times> task \<times> world" where
  "executeTask ns future task w =
     (case set_running_or_notify_cancel future w of
        Inl e \<Rightarrow> (Raised e, [], future, task, w)
      | Inr (running, future, w) \<Rightarrow>
          if \<not> running then (Returned (), [], future, task, w)
          else
            (case run ns future task w of
               (Returned res, hist, future, task, w) \<Rightarrow>
                 (let (future, w) = set_result res future w
                  in (Returned (), hist, future, task, w))
             | (Raised e, hist, future, task, w) \<Rightarrow>
                 if e = CancelledError then (Returned (), hist, future, task, w)
                 else (let (future, w) = set_exception e future w
                       in (Returned (), hist, future, task, w))
             | (Blocked, hist, future, task, w) \<Rightarrow> (Blocked, hist, future, task, w)))"

text \<open>Three streams with estimates 5, 3 and 2 seconds, acquired in the order A, B, C.\<close>

definition stream_A :: stream where
  "stream_A = \<lparr>sid = 0, kind = FluoStream, name = ''A'', estimateAcquisitionTime = 5\<rparr>"

definition stream_B :: stream where
  "stream_B = \<lparr>sid = 1, kind = Optical_stream, name = ''B'', estimateAcquisitionTime = 3\<rparr>"

definition stream_C :: stream where
  "stream_C = \<lparr>sid = 2, kind = EM_stream, name = ''C'', estimateAcquisitionTime = 2\<rparr>"

definition fresh_future :: "(task, unit) future" where
  "fresh_future = \<lparr>state = PENDING, start_time = 1 / 10, end_time = 2 / 10, upd_callbacks = [0],
                   task_canceller = Some task_cancel, result = None, exception = None\<rparr>"

definition frame :: "nat \<Rightarrow> dataarray" where
  "frame n = \<lparr>payload = n, description = []\<rparr>"

section \<open>Calibration pipeline (acq/align/delphi.py)\<close>

type_synonym pos = "real \<times> real"

definition NUMBER_OF_HOLES :: nat where
  "NUMBER_OF_HOLES = 2"

definition ERR_MARGIN :: real where
  "ERR_MARGIN = 30 / 10 ^ 6"

definition MAX_STEPS :: nat where
  "MAX_STEPS = 10"

text \<open>
  The module-level tuple \<^verbatim>\<open>EXPECTED_HOLES\<close> holds two dictionaries with keys
  \<^verbatim>\<open>"x"\<close> and \<^verbatim>\<open>"y"\<close>. The tuple cannot change but the dictionaries can, so the
  module's globals are a piece of state; \<open>initial_globals\<close> is their value at import.
\<close>

record globals =
  EXPECTED_HOLES :: "pos list"

definition initial_globals :: globals where
  "initial_globals = \<lparr>EXPECTED_HOLES = [(0, 11 / 10 ^ 3), (0, - (11 / 10 ^ 3))]\<rparr>"

subsection \<open>Duration estimates\<close>

text \<open>\<^verbatim>\<open>math.log\<close> raises \<^verbatim>\<open>ValueError\<close> outside the positive reals.\<close>

definition math_log :: "real \<Rightarrow> error + real" where
  "math_log x = (if x \<le> 0 then Inl ValueError else Inr (ln x))"

definition estimateOffsetTime :: "real \<Rightarrow> real option \<Rightarrow> error + real" where
  "estimateOffsetTime et distance =
     (case distance of
        None \<Rightarrow> Inr (real MAX_STEPS * (et + 2))
      | Some d \<Rightarrow>
          (let err_mrg = ERR_MARGIN in
           case math_log (d / err_mrg) of
             Inl e \<Rightarrow> Inl e
           | Inr l \<Rightarrow>
               (let steps = l / ln 2;
                    steps = min steps (real MAX_STEPS)
                in Inr (steps * (et + 2)))))"

definition estimateRotationAndScalingTime :: "real \<Rightarrow> real option \<Rightarrow> error + real" where
  "estimateRotationAndScalingTime et distance =
     (case distance of
        None \<Rightarrow> Inr (real MAX_STEPS * (et + 2))
      | Some d \<Rightarrow>
          (let err_mrg = ERR_MARGIN in
           case math_log (d / err_mrg) of
             Inl e \<Rightarrow> Inl e
           | Inr l \<Rightarrow>
               (let steps = l / ln 2;
                    steps = min steps (real MAX_STEPS)
                in Inr (steps * (et + 2)))))"

definition estimateHoleDetectionTime :: "real \<Rightarrow> real option \<Rightarrow> error + real" where
  "estimateHoleDetectionTime et distance =
     (case distance of
        None \<Rightarrow> Inr (real MAX_STEPS * (et + 2))
      | Some d \<Rightarrow>
          (let err_mrg = ERR_MARGIN in
           case math_log (d / err_mrg) of
             Inl e \<Rightarrow> Inl e
           | Inr l \<Rightarrow>
               (let steps = l / ln 2;
                    steps = min steps (real MAX_STEPS)
                in Inr (steps * (et + 2)))))"

subsection \<open>Cancelling the conversion update\<close>

text \<open>
  \<^verbatim>\<open>_CancelUpdateConversion\<close>. The three sub-task futures are objects of
  \<^verbatim>\<open>odemis.model\<close>; their \<^verbatim>\<open>cancel()\<close> method is the parameter \<open>sub_cancel\<close>, whose
  boolean result the canceller drops. \<open>done_in_time\<close> tells whether the event \<^verbatim>\<open>_done\<close>
  is set before the timeout of the wait runs out, and \<open>Done_wait t b\<close> records a wait with
  timeout \<open>t\<close> seconds that returned \<open>b\<close>.
\<close>

datatype subtask = Hole_detection | Align_offset | Rotation_scaling

datatype conv_action = Subfuture_cancel subtask | Done_wait real bool

record 'f conversion_future =
  conversion_update_state :: fstate
  hole_detectionf :: 'f
  align_offsetf :: 'f
  rotation_scalingf :: 'f
  done_is_set :: bool

definition CancelUpdateConversion ::
  "('f \<Rightarrow> bool \<times> 'f) \<Rightarrow> bool \<Rightarrow> 'f conversion_future \<Rightarrow>
   bool \<times> 'f conversion_future \<times> conv_action list" where
  "CancelUpdateConversion sub_cancel done_in_time future =
     (if conversion_update_state future = FINISHED then (False, future, [])
      else
        (let future = future\<lparr>conversion_update_state := CANCELLED\<rparr>;
             future = future\<lparr>hole_detectionf := snd (sub_cancel (hole_detectionf future))\<rparr>;
             future = future\<lparr>align_offsetf := snd (sub_cancel (align_offsetf future))\<rparr>;
             future = future\<lparr>rotation_scalingf := snd (sub_cancel (rotation_scalingf future))\<rparr>;
             signalled = (done_is_set future \<or> done_in_time)
         in (True, future,
             [Subfuture_cancel Hole_detection, Subfuture_cancel Align_offset,
              Subfuture_cancel Rotation_scaling, Done_wait 10 signalled])))"

text \<open>\<^verbatim>\<open>_CancelHoleDetection\<close>, on the field \<^verbatim>\<open>_hole_detection_state\<close> of its future.\<close>

definition CancelHoleDetection :: "fstate \<Rightarrow> bool \<times> fstate" where
  "CancelHoleDetection hole_detection_state =
     (if hole_detection_state = FINISHED then (False, hole_detection_state)
      else (True, CANCELLED))"

definition conversion_example :: "fstate \<Rightarrow> fstate conversion_future" where
  "conversion_example s =
     \<lparr>conversion_update_state = s, hole_detectionf = FINISHED, align_offsetf = RUNNING,
      rotation_scalingf = PENDING, done_is_set = False\<rparr>"

subsection \<open>Hole detection\<close>

text \<open>
  What the procedure observes while it works on one hole: whether the future is found
  cancelled at each of its checks (check 0 before the move to the hole, check \<open>k + 1\<close> at
  the head of the centring loop with \<open>steps = k\<close>), where the image taken at step \<open>k\<close>
  shows the hole (\<open>Hole_at x y\<close> is \<^verbatim>\<open>tab\<close>, the offset from the image centre in metres),
  and the stage position read after the loop.
\<close>

datatype detection = Hole_not_found | Hole_at real real

record hole_env =
  cancelled_at :: "nat \<Rightarrow> bool"
  images :: "nat \<Rightarrow> detection"
  stage_position :: pos

datatype stage_action = Move_abs real real | Move_rel real real | End_time_estimate real

fun is_move_abs :: "stage_action \<Rightarrow> bool" where
  "is_move_abs (Move_abs x y) = True"
| "is_move_abs (Move_rel x y) = False"
| "is_move_abs (End_time_estimate t) = False"

text \<open>
  The \<^verbatim>\<open>while True\<close> loop that centres on one hole. \<^verbatim>\<open>tab\<close> keeps its last value when
  the loop ends on the step bound.
\<close>

function center_on_hole ::
  "hole_env \<Rightarrow> real \<Rightarrow> nat \<Rightarrow> pos option \<Rightarrow> stage_action list \<Rightarrow>
   (error + pos option) \<times> stage_action list" where
  "center_on_hole env et steps tab tr =
     (if cancelled_at env (Suc steps) then (Inl CancelledError, tr)
      else if steps \<ge> MAX_STEPS then (Inr tab, tr)
      else
        (case images env steps of
           Hole_not_found \<Rightarrow> (Inl IOError, tr)
         | Hole_at x y \<Rightarrow>
             (let tab = (x, y);
                  distance = sqrt (x ^ 2 + y ^ 2)
              in if distance \<le> ERR_MARGIN then (Inr (Some tab), tr)
                 else
                   (let tr = tr @ [Move_rel x y];
                        steps = Suc steps
                    in case estimateHoleDetectionTime et (Some distance) of
                         Inl e \<Rightarrow> (Inl e, tr)
                       | Inr est \<Rightarrow>
                           center_on_hole env et steps (Some tab)
                             (tr @ [End_time_estimate est])))))"
  by pat_completeness auto
termination
  by (relation "measure (\<lambda>(env, et, steps, tab, tr). MAX_STEPS - steps)") auto

declare center_on_hole.simps [simp del]

text \<open>
  The \<^verbatim>\<open>for hole in range(NUMBER_OF_HOLES)\<close> loop. \<^verbatim>\<open>holes_found = EXPECTED_HOLES\<close>
  binds a second name to the same tuple of dictionaries, so the assignments to
  \<^verbatim>\<open>holes_found[hole]\<close> are assignments to the module-level table.
\<close>

fun detect_holes ::
  "nat list \<Rightarrow> (nat \<Rightarrow> hole_env) \<Rightarrow> real \<Rightarrow> globals \<Rightarrow> pos option \<Rightarrow> stage_action list \<Rightarrow>
   error option \<times> globals \<times> stage_action list" where
  "detect_holes [] envs et g tab tr = (None, g, tr)"
| "detect_holes (hole # holes) envs et g tab tr =
     (let env = envs hole in
      if cancelled_at env 0 then (Some CancelledError, g, tr)
      else if hole \<ge> length (EXPECTED_HOLES g) then (Some IndexError, g, tr)
      else
        (let (x, y) = EXPECTED_HOLES g ! hole;
             tr = tr @ [Move_abs x y]
         in case center_on_hole env et 0 tab tr of
              (Inl e, tr) \<Rightarrow> (Some e, g, tr)
            | (Inr None, tr) \<Rightarrow> (Some NameError, g, tr)
            | (Inr (Some (tx, ty)), tr) \<Rightarrow>
                (let (px, py) = stage_position env;
                     g = g\<lparr>EXPECTED_HOLES := (EXPECTED_HOLES g)[hole := (px + tx, py + ty)]\<rparr>
                 in detect_holes holes envs et g (Some (tx, ty)) tr)))"

text \<open>
  \<^verbatim>\<open>_DoHoleDetection\<close>: \<open>et\<close> is the scan time of one image; the \<^verbatim>\<open>finally\<close> clause
  raises \<^verbatim>\<open>CancelledError\<close> over any result when it finds the future cancelled.
\<close>

definition DoHoleDetection ::
  "(nat \<Rightarrow> hole_env) \<Rightarrow> real \<Rightarrow> bool \<Rightarrow> globals \<Rightarrow>
   (error + pos \<times> pos) \<times> globals \<times> stage_action list" where
  "DoHoleDetection envs et cancelled_finally g =
     (let (err, g, tr) = detect_holes [0..<NUMBER_OF_HOLES] envs et g None [];
          res = (case err of
                   Some e \<Rightarrow> Inl e
                 | None \<Rightarrow>
                     if length (EXPECTED_HOLES g) < 2 then Inl IndexError
                     else Inr (EXPECTED_HOLES g ! 0, EXPECTED_HOLES g ! 1))
      in (if cancelled_finally then Inl CancelledError else res, g, tr))"

text \<open>A run that finds both holes centred at once, at stage positions off the expected ones.\<close>

definition centred_env :: "pos \<Rightarrow> hole_env" where
  "centred_env p = \<lparr>cancelled_at = (\<lambda>n. False), images = (\<lambda>n. Hole_at 0 0), stage_position = p\<rparr>"

definition first_run_envs :: "nat \<Rightarrow> hole_env" where
  "first_run_envs hole = (if hole = 0 then centred_env (1 / 10 ^ 3, 12 / 10 ^ 3)
                          else centred_env (- (1 / 10 ^ 3), - (10 / 10 ^ 3)))"


definition found_globals :: globals where
  "found_globals =
     \<lparr>EXPECTED_HOLES = [(1 / 10 ^ 3, 12 / 10 ^ 3), (- (1 / 10 ^ 3), - (10 / 10 ^ 3))]\<rparr>"

section \<open>Camera acquisition loop (driver/pvcam.py)\<close>

text \<open>
  The status values of \<^verbatim>\<open>pl_exp_check_status\<close> and the module constant
  \<^verbatim>\<open>STATUS_IN_PROGRESS\<close>.
\<close>

datatype status =
  READOUT_NOT_ACTIVE | EXPOSURE_IN_PROGRESS | READOUT_IN_PROGRESS | READOUT_COMPLETE |
  READOUT_FAILED | ACQUISITION_IN_PROGRESS

definition STATUS_IN_PROGRESS :: "status list" where
  "STATUS_IN_PROGRESS = [ACQUISITION_IN_PROGRESS, EXPOSURE_IN_PROGRESS, READOUT_IN_PROGRESS]"

text \<open>
  The calls the thread makes, in the order it makes them, are its trace. \<open>Callback\<close> is
  the delivery of a frame to the subscriber.
\<close>

datatype cam_action =
  Check_status | Abort | Finish_seq | Uninit_seq | Get_temperature | Reinitialize |
  Update_settings | Init_seq | Setup_seq | Get_readout_time | Start_seq | Callback |
  Release_lock | Clear_must_stop

record loop_state =
  need_reinit :: bool
  retries :: nat
  cbuffer :: "nat option"
  trace :: "cam_action list"

text \<open>
  \<^verbatim>\<open>if cbuffer:\<close> is false for \<^verbatim>\<open>None\<close> and for a ctypes array of length 0; the array
  allocated for \<open>n\<close> bytes has \<open>n div 2\<close> cells of 16 bits.
\<close>

definition buffer_true :: "nat option \<Rightarrow> bool" where
  "buffer_true c = (case c of None \<Rightarrow> False | Some n \<Rightarrow> 0 < n)"

text \<open>
  One round of the bounded wait: whether the clock has passed the timeout, whether
  \<^verbatim>\<open>acquire_must_stop.wait(0.01)\<close> saw the stop request, and what the next status
  check gives (\<open>None\<close> when it raises \<^verbatim>\<open>PVCamError\<close>).
\<close>

record poll_round =
  timed_out :: bool
  stop_seen :: bool
  next_status :: "status option"

text \<open>
  What the thread observes during one pass of the \<^verbatim>\<open>while\<close> loop. \<open>raises_at\<close> names
  the call outside every inner \<^verbatim>\<open>try\<close> that raises in this pass, if one does; the status
  checks and aborts are inside a \<^verbatim>\<open>try\<close> of their own.
\<close>

record iteration =
  must_stop_set :: bool
  settings_changed :: bool
  reinit_status :: "status option"
  camera_gone :: bool
  blength :: nat
  raises_at :: "cam_action option"
  stop_in_sleep :: bool
  poll_first :: "status option"
  poll_rounds :: "poll_round list"

datatype poll_result = Poll_stop | Poll_fault | Poll_complete

text \<open>
  The bounded wait. It cannot outlast its timeout, so when no round is left the clock
  test raises the timeout error. A fault is the \<^verbatim>\<open>IOError\<close> or \<^verbatim>\<open>PVCamError\<close> that the
  \<^verbatim>\<open>except\<close> clause below it catches.
\<close>

fun poll_status :: "status option \<Rightarrow> poll_round list \<Rightarrow> cam_action list \<Rightarrow>
    poll_result \<times> cam_action list" where
  "poll_status None rounds tr = (Poll_fault, tr)"
| "poll_status (Some st) rounds tr =
     (if st \<in> set STATUS_IN_PROGRESS then
        (case rounds of
           [] \<Rightarrow> (Poll_fault, tr)
         | r # rs \<Rightarrow>
             if timed_out r then (Poll_fault, tr)
             else if stop_seen r then (Poll_stop, tr)
             else poll_status (next_status r) rs (tr @ [Check_status]))
      else if st \<noteq> READOUT_COMPLETE then (Poll_fault, tr)
      else (Poll_complete, tr))"

text \<open>Calls made in sequence until one raises; the flag tells whether one did.\<close>

fun perform :: "cam_action option \<Rightarrow> cam_action list \<Rightarrow> loop_state \<Rightarrow> bool \<times> loop_state" where
  "perform r [] st = (False, st)"
| "perform r (a # as) st =
     (let st = st\<lparr>trace := trace st @ [a]\<rparr>
      in if r = Some a then (True, st) else perform r as st)"

text \<open>The block under \<^verbatim>\<open>if need_reinit or self._need_update_settings()\<close>.\<close>

definition rearm :: "iteration \<Rightarrow> loop_state \<Rightarrow> bool \<times> loop_state" where
  "rearm env st =
     (let st = st\<lparr>trace := trace st @ [Check_status]\<rparr>;
          st = (case reinit_status env of
                  Some s \<Rightarrow> if s \<in> set STATUS_IN_PROGRESS
                            then st\<lparr>trace := trace st @ [Abort]\<rparr> else st
                | None \<Rightarrow> st)
      in case perform (raises_at env)
                ((if buffer_true (cbuffer st) then [Finish_seq, Uninit_seq] else []) @
                 [Get_temperature] @
                 (if camera_gone env then [Reinitialize] else []) @
                 [Update_settings, Init_seq, Setup_seq]) st of
           (True, st) \<Rightarrow> (True, st)
         | (False, st) \<Rightarrow>
             (let st = st\<lparr>cbuffer := Some (blength env div 2)\<rparr>
              in case perform (raises_at env) [Get_readout_time] st of
                   (True, st) \<Rightarrow> (True, st)
                 | (False, st) \<Rightarrow> (False, st\<lparr>need_reinit := False\<rparr>)))"

text \<open>
  One pass of the loop body. \<open>Exit_loop\<close> is the loop test failing, \<open>Break\<close> one of the two
  \<^verbatim>\<open>break\<close> statements, \<open>Uncaught\<close> an exception that reaches the outer \<^verbatim>\<open>except\<close>,
  \<open>Continue\<close> the end of the body or the \<^verbatim>\<open>continue\<close> of the retry.
\<close>

datatype step = Continue loop_state | Break loop_state | Uncaught loop_state | Exit_loop loop_state

definition acquire_iteration :: "iteration \<Rightarrow> loop_state \<Rightarrow> step" where
  "acquire_iteration env st =
     (if must_stop_set env then Exit_loop st
      else
        (case (if need_reinit st \<or> settings_changed env then rearm env st else (False, st)) of
           (True, st) \<Rightarrow> Uncaught st
         | (False, st) \<Rightarrow>
             (case perform (raises_at env) [Start_seq] st of
                (True, st) \<Rightarrow> Uncaught st
              | (False, st) \<Rightarrow>
                  if stop_in_sleep env then Break st
                  else
                    (case poll_status (poll_first env) (poll_rounds env)
                            (trace st @ [Check_status]) of
                       (Poll_stop, tr) \<Rightarrow> Break (st\<lparr>trace := tr\<rparr>)
                     | (Poll_fault, tr) \<Rightarrow>
                         if retries st > 5 then Uncaught (st\<lparr>trace := tr\<rparr>)
                         else Continue (st\<lparr>trace := tr @ [Abort],
                                           retries := Suc (retries st),
                                           need_reinit := True\<rparr>)
                     | (Poll_complete, tr) \<Rightarrow>
                         (case perform (raises_at env) [Callback]
                                 (st\<lparr>trace := tr, retries := 0\<rparr>) of
                            (True, st) \<Rightarrow> Uncaught st
                          | (False, st) \<Rightarrow> Continue st)))))"

datatype run_end = Stopped | Failed

text \<open>
  The loop over the passes the environment describes. With no pass left the thread is
  still in the loop (\<open>None\<close>).
\<close>

fun acquire_loop :: "iteration list \<Rightarrow> loop_state \<Rightarrow> run_end option \<times> loop_state" where
  "acquire_loop [] st = (None, st)"
| "acquire_loop (env # envs) st =
     (case acquire_iteration env st of
        Continue st \<Rightarrow> acquire_loop envs st
      | Break st \<Rightarrow> (Some Stopped, st)
      | Exit_loop st \<Rightarrow> (Some Stopped, st)
      | Uncaught st \<Rightarrow> (Some Failed, st))"

text \<open>
  The \<^verbatim>\<open>finally\<close> clause; \<open>final_status\<close> is what its status check gives. Every call in
  it sits in a \<^verbatim>\<open>try\<close> that logs a \<^verbatim>\<open>PVCamError\<close> and goes on.
\<close>

definition teardown :: "status option \<Rightarrow> loop_state \<Rightarrow> cam_action list" where
  "teardown final_status st =
     [Check_status] @
     (case final_status of
        Some s \<Rightarrow> if s \<in> set STATUS_IN_PROGRESS then [Abort] else []
      | None \<Rightarrow> []) @
     (if buffer_true (cbuffer st) then [Finish_seq] else []) @
     [Uninit_seq, Release_lock, Clear_must_stop]"

definition initial_state :: loop_state where
  "initial_state = \<lparr>need_reinit = True, retries = 0, cbuffer = None, trace = []\<rparr>"

definition run_from :: "loop_state \<Rightarrow> iteration list \<Rightarrow> status option \<Rightarrow>
    run_end option \<times> cam_action list" where
  "run_from st envs final_status =
     (case acquire_loop envs st of
        (None, st) \<Rightarrow> (None, trace st)
      | (Some e, st) \<Rightarrow> (Some e, trace st @ teardown final_status st))"

definition acquire_thread_run :: "iteration list \<Rightarrow> status option \<Rightarrow>
    run_end option \<times> cam_action list" where
  "acquire_thread_run envs final_status = run_from initial_state envs final_status"

text \<open>
  The passes the claims speak of: a pass that reaches the bounded wait and ends it with a
  fault, and a pass that reaches it and finds the readout complete.
\<close>

definition reaches_wait :: "iteration \<Rightarrow> bool" where
  "reaches_wait env \<longleftrightarrow> \<not> must_stop_set env \<and> raises_at env = None \<and> \<not> stop_in_sleep env"

definition faulty :: "iteration \<Rightarrow> bool" where
  "faulty env \<longleftrightarrow> reaches_wait env \<and>
     fst (poll_status (poll_first env) (poll_rounds env) []) = Poll_fault"

definition successful :: "iteration \<Rightarrow> bool" where
  "successful env \<longleftrightarrow> reaches_wait env \<and>
     fst (poll_status (poll_first env) (poll_rounds env) []) = Poll_complete"

definition deliveries :: "cam_action list \<Rightarrow> nat" where
  "deliveries tr = length (filter (\<lambda>a. a = Callback) tr)"

text \<open>Concrete passes used to instantiate the theorems below.\<close>

definition good_pass :: iteration where
  "good_pass = \<lparr>must_stop_set = False, settings_changed = False,
                reinit_status = Some READOUT_NOT_ACTIVE, camera_gone = False, blength = 2048,
                raises_at = None, stop_in_sleep = False, poll_first = Some READOUT_COMPLETE,
                poll_rounds = []\<rparr>"

definition fault_pass :: iteration where
  "fault_pass = good_pass\<lparr>poll_first := Some READOUT_FAILED\<rparr>"


section \<open>Properties of ProgressiveFuture\<close>

lemma report_update_reports:
  "reports (report_update self fn w) = reports w @
     [\<lparr>rep_fn = fn, rep_state = state self,
       rep_past = (if state self \<in> {CANCELLED, CANCELLED_AND_NOTIFIED, FINISHED}
                   then end_time self - start_time self
                   else if state self = PENDING \<and> clock w (tick w) - start_time self \<ge> 0
                   then - (1 / 10 ^ 9) else clock w (tick w) - start_time self),
       rep_left = (if state self \<in> {CANCELLED, CANCELLED_AND_NOTIFIED, FINISHED} then 0
                   else max 0 (end_time self - clock w (tick w)))\<rparr>]"
  by (auto simp: report_update_def time_time_def Let_def max_def)

lemma report_update_clock [simp]: "clock (report_update self fn w) = clock w"
  by (simp add: report_update_def time_time_def Let_def split: prod.splits)

lemma report_update_tick [simp]: "tick (report_update self fn w) = Suc (tick w)"
  by (simp add: report_update_def time_time_def Let_def split: prod.splits)

lemma foldl_report_clock [simp]:
  "clock (foldl (\<lambda>w' fn. report_update self fn w') w fns) = clock w"
  by (induction fns arbitrary: w) simp_all

lemma invoke_upd_callbacks_clock [simp]: "clock (invoke_upd_callbacks self w) = clock w"
  by (simp add: invoke_upd_callbacks_def)

lemma foldl_report_terminal:
  "state self \<in> {CANCELLED, CANCELLED_AND_NOTIFIED, FINISHED} \<Longrightarrow>
   reports (foldl (\<lambda>w' fn. report_update self fn w') w fns) = reports w @
     map (\<lambda>fn. \<lparr>rep_fn = fn, rep_state = state self,
                 rep_past = end_time self - start_time self, rep_left = 0\<rparr>) fns"
  by (induction fns arbitrary: w) (simp_all add: report_update_reports)

lemma mono_world_at: "mono (clock (world_at t))"
  by (simp add: world_at_def mono_def)

subsection \<open>Elapsed time while pending\<close>

text \<open>
  C5, as stated: while the future is \<open>PENDING\<close> the elapsed value handed to a subscriber
  is at least 0. It fails: a pending future whose estimated start (10) is already behind
  the clock (15) reports an elapsed time below 0.
\<close>

theorem pending_elapsed_counterexample:
  "state pending_example = PENDING \<and>
   \<not> (0 \<le> rep_past (last (reports (report_update pending_example 0 (world_at 15)))))"
  by (simp add: pending_example_def world_at_def report_update_reports)

text \<open>
  C5, amended: while the future is \<open>PENDING\<close> the elapsed value handed to a subscriber is
  always negative. It is \<open>now - start_time\<close> (the time until the start) when that is
  negative, and \<open>-1e-9\<close> otherwise; the remaining time is \<open>end_time - now\<close>, at least 0.
\<close>

theorem pending_elapsed_negative:
  assumes "state self = PENDING"
  shows "reports (report_update self fn w) = reports w @
           [\<lparr>rep_fn = fn, rep_state = PENDING,
             rep_past = (if clock w (tick w) - start_time self \<ge> 0 then - (1 / 10 ^ 9)
                         else clock w (tick w) - start_time self),
             rep_left = max 0 (end_time self - clock w (tick w))\<rparr>]
         \<and> rep_past (last (reports (report_update self fn w))) < 0"
  using assms by (simp add: report_update_reports)

theorem pending_elapsed_negative_witness:
  "state pending_example = PENDING \<and>
   reports (report_update pending_example 0 (world_at 4)) =
     [\<lparr>rep_fn = 0, rep_state = PENDING, rep_past = - 6, rep_left = 16\<rparr>]"
  using pending_elapsed_negative [of pending_example 0 "world_at 4"]
  by (simp add: pending_example_def world_at_def)

subsection \<open>Cancelling a running future\<close>

text \<open>
  C3, as stated: \<^verbatim>\<open>cancel()\<close> on a running future returns what its canceller reports,
  and the state becomes \<open>CANCELLED\<close> only if the canceller reports success. It fails: with
  a canceller that returns False, \<^verbatim>\<open>cancel()\<close> returns True and the future is
  \<open>CANCELLED\<close>.
\<close>

theorem cancel_ignores_report_counterexample:
  "state running_example = RUNNING \<and>
   task_canceller running_example = Some refusing_canceller \<and>
   fst (refusing_canceller ()) = False \<and>
   fst (cancel running_example () (world_at 15)) = True \<and>
   state (fst (snd (cancel running_example () (world_at 15)))) = CANCELLED"
  by (simp add: running_example_def refusing_canceller_def cancel_def Let_def)

text \<open>
  C3, amended: for every running ProgressiveFuture with a registered task canceller,
  \<^verbatim>\<open>cancel()\<close> invokes the canceller, drops whatever it returns, sets the state to
  \<open>CANCELLED\<close> and returns True; every progress subscriber is then notified once more,
  with remaining = 0 and elapsed = \<open>end_time - start_time\<close>.
\<close>

theorem cancel_running_with_canceller:
  assumes "state self = RUNNING" and "task_canceller self = Some canceller"
  shows "cancel self task w =
           (True, self\<lparr>state := CANCELLED\<rparr>, snd (canceller task),
            invoke_upd_callbacks (self\<lparr>state := CANCELLED\<rparr>) w)
         \<and> reports (invoke_upd_callbacks (self\<lparr>state := CANCELLED\<rparr>) w) = reports w @
             map (\<lambda>fn. \<lparr>rep_fn = fn, rep_state = CANCELLED,
                         rep_past = end_time self - start_time self, rep_left = 0\<rparr>)
                 (upd_callbacks self)"
  using assms foldl_report_terminal [of "self\<lparr>state := CANCELLED\<rparr>" w "upd_callbacks self"]
  by (simp add: cancel_def invoke_upd_callbacks_def Let_def)

theorem cancel_running_with_canceller_witness:
  "state running_example = RUNNING \<and>
   task_canceller running_example = Some refusing_canceller \<and>
   fst (cancel running_example () (world_at 15)) = True \<and>
   reports (snd (snd (snd (cancel running_example () (world_at 15))))) =
     [\<lparr>rep_fn = 0, rep_state = CANCELLED, rep_past = 10, rep_left = 0\<rparr>,
      \<lparr>rep_fn = 1, rep_state = CANCELLED, rep_past = 10, rep_left = 0\<rparr>]"
  using cancel_running_with_canceller [of running_example refusing_canceller "()" "world_at 15"]
  by (simp add: running_example_def world_at_def refusing_canceller_def)

subsection \<open>Progress reports over a sequence of executor calls\<close>

lemma progress_inv_report:
  assumes "mono (clock w)" and "progress_inv self w"
  shows "progress_inv self (report_update self fn w)"
proof -
  have le: "clock w (tick w) \<le> clock w (Suc (tick w))"
    using assms(1) by (simp add: monoD)
  show ?thesis
    using assms(2) le
    by (fastforce simp: progress_inv_def report_update_reports sorted_append)
qed

lemma progress_inv_foldl:
  "mono (clock w) \<Longrightarrow> progress_inv self w \<Longrightarrow>
   progress_inv self (foldl (\<lambda>w' fn. report_update self fn w') w fns)"
  by (induction fns arbitrary: w) (simp_all add: progress_inv_report)

lemma progress_inv_end_time:
  "progress_inv self w \<Longrightarrow> progress_inv (self\<lparr>end_time := v\<rparr>) w"
  by (simp add: progress_inv_def)

lemma progress_inv_set_end_time:
  assumes "mono (clock w)" and "progress_inv self w" and "set_end_time v self w = (self', w')"
  shows "progress_inv self' w' \<and> clock w' = clock w"
  using assms progress_inv_foldl [of w "self\<lparr>end_time := v\<rparr>" "upd_callbacks self"]
  by (auto simp: set_end_time_def Let_def invoke_upd_callbacks_def progress_inv_end_time)

lemma progress_inv_start:
  assumes "progress_inv self w" and "state self = PENDING"
  shows "progress_inv (self\<lparr>state := RUNNING, start_time := clock w (tick w), end_time := e\<rparr>)
           (w\<lparr>tick := Suc (tick w)\<rparr>)"
  using assms by (auto simp: progress_inv_def)

lemma progress_inv_set_running:
  assumes "mono (clock w)" and "progress_inv self w"
    and "set_running_or_notify_cancel self w = Inr (b, self', w')"
  shows "progress_inv self' w' \<and> clock w' = clock w"
proof -
  from assms(2) have st: "state self = PENDING \<or> state self = RUNNING"
    by (simp add: progress_inv_def)
  with assms(3) have p: "state self = PENDING"
    by (auto simp: set_running_or_notify_cancel_def Future_set_running_or_notify_cancel_def)
  let ?s = "self\<lparr>state := RUNNING, start_time := clock w (tick w), end_time := clock w (tick w)\<rparr>"
  let ?w = "w\<lparr>tick := Suc (tick w)\<rparr>"
  from assms(3) p have eq: "self' = ?s" "w' = invoke_upd_callbacks ?s ?w"
    by (auto simp: set_running_or_notify_cancel_def Future_set_running_or_notify_cancel_def
        time_time_def Let_def)
  have "progress_inv ?s ?w" using progress_inv_start [OF assms(2) p] .
  moreover have "mono (clock ?w)" using assms(1) by simp
  ultimately have "progress_inv ?s (invoke_upd_callbacks ?s ?w)"
    unfolding invoke_upd_callbacks_def by (rule progress_inv_foldl [rotated])
  then show ?thesis using eq by simp
qed

lemma progress_inv_calls:
  "mono (clock w) \<Longrightarrow> progress_inv self w \<Longrightarrow>
   progress_inv (fst (executor_calls cs self w)) (snd (executor_calls cs self w))"
proof (induction cs arbitrary: self w)
  case Nil
  then show ?case by simp
next
  case (Cons c cs)
  show ?case
  proof (cases c)
    case (Set_end_time v)
    obtain self' w' where e: "set_end_time v self w = (self', w')"
      by (cases "set_end_time v self w")
    from progress_inv_set_end_time [OF Cons.prems e]
    have "progress_inv self' w'" and "mono (clock w')" using Cons.prems(1) by simp_all
    then have "progress_inv (fst (executor_calls cs self' w')) (snd (executor_calls cs self' w'))"
      by (rule Cons.IH [rotated])
    then show ?thesis using Set_end_time e by simp
  next
    case Set_running_or_notify_cancel
    show ?thesis
    proof (cases "set_running_or_notify_cancel self w")
      case (Inl e)
      then show ?thesis using Cons.prems Set_running_or_notify_cancel by simp
    next
      case (Inr r)
      obtain b self' w' where r: "r = (b, self', w')" by (cases r)
      from progress_inv_set_running [OF Cons.prems Inr [unfolded r]]
      have "progress_inv self' w'" and "mono (clock w')" using Cons.prems(1) by simp_all
      then have "progress_inv (fst (executor_calls cs self' w')) (snd (executor_calls cs self' w'))"
        by (rule Cons.IH [rotated])
      then show ?thesis using Set_running_or_notify_cancel Inr r by simp
    qed
  qed
qed

text \<open>
  C4: take a future that is \<open>PENDING\<close> or \<open>RUNNING\<close>, a clock whose readings never go
  back, and any sequence of \<^verbatim>\<open>set_end_time\<close> calls, with the start of the future
  anywhere among them. Every progress report delivered has remaining \<open>\<ge> 0\<close>, and the
  elapsed values of the reports delivered while the future is \<open>RUNNING\<close> never decrease.
\<close>

theorem progress_reports_bounded_monotone:
  assumes "mono (clock w)" and "state self \<in> {PENDING, RUNNING}" and "reports w = []"
  shows "(\<forall>r \<in> set (reports (snd (executor_calls cs self w))). 0 \<le> rep_left r) \<and>
         sorted (map rep_past (filter (\<lambda>r. rep_state r = RUNNING)
                                  (reports (snd (executor_calls cs self w)))))"
proof -
  have "progress_inv self w" using assms(2,3) by (simp add: progress_inv_def)
  from progress_inv_calls [OF assms(1) this, of cs] show ?thesis
    by (simp add: progress_inv_def)
qed

theorem progress_reports_bounded_monotone_witness:
  "mono (clock (world_at 4)) \<and> state pending_example \<in> {PENDING, RUNNING} \<and>
   reports (world_at 4) = [] \<and>
   map (\<lambda>r. (rep_state r, rep_past r, rep_left r))
     (reports (snd (executor_calls
        [Set_end_time 30, Set_running_or_notify_cancel, Set_end_time 7, Set_end_time 6]
        pending_example (world_at 4)))) =
     [(PENDING, - 6, 26), (RUNNING, 1, 0), (RUNNING, 2, 0), (RUNNING, 3, 0)]"
  using progress_reports_bounded_monotone [of "world_at 4" pending_example
    "[Set_end_time 30, Set_running_or_notify_cancel, Set_end_time 7, Set_end_time 6]"]
  by (simp add: pending_example_def world_at_def set_end_time_def invoke_upd_callbacks_def
      report_update_def time_time_def set_running_or_notify_cancel_def
      Future_set_running_or_notify_cancel_def Let_def mono_def)

section \<open>Properties of the acquisition task\<close>

lemma init_ABC: "streams (AcquisitionTask_init [stream_C, stream_A, stream_B]) = [stream_A, stream_B, stream_C]"
  by (simp add: AcquisitionTask_init_def stream_A_def stream_B_def stream_C_def secom_weight_stream_def)


lemma image_listener_fields [simp]:
  "cancelled (image_listener t) = cancelled t"
  "streamTimes (image_listener t) = streamTimes t"
  by (simp_all add: image_listener_def split: option.splits)

lemma acquire_step_image:
  assumes "\<not> cancelled t" and "map_of (streamTimes t) s = Some est"
  shows "acquire_streams (s # ss) (Image_arrives raw # ns) e raws hist fut t w =
     acquire_streams ss ns (e - est) (raws @ map (\<lambda>d. d\<lparr>description := name s\<rparr>) raw)
       (hist @ [e - est]) (fut\<lparr>end_time := clock w (tick w) + (e - est)\<rparr>)
       (image_listener (t\<lparr>current_stream := Some s,
           stream_log := stream_log t @ [Subscribe (sid s), Set_is_active (sid s) True]\<rparr>))
       (invoke_upd_callbacks (fut\<lparr>end_time := clock w (tick w) + (e - est)\<rparr>)
          (w\<lparr>tick := Suc (tick w)\<rparr>))"
  using assms by (simp add: Let_def time_time_def set_end_time_def)

lemma acquire_step_cancel:
  assumes "state fut = RUNNING" and "task_canceller fut = Some task_cancel"
  shows "\<exists>t' w'. acquire_streams (s # ss) (Cancel_requested # ns) e raws hist fut t w =
     (Raised CancelledError, hist, fut\<lparr>state := CANCELLED\<rparr>, t', w')"
  using assms by (simp add: Let_def cancel_def task_cancel_def split: option.splits)


lemma acquire_cancel_mid:
  assumes "length raws < length ss" and "\<not> cancelled t"
    and "\<forall>s \<in> set ss. map_of (streamTimes t) s = Some (estimateAcquisitionTime s)"
    and "state fut = RUNNING" and "task_canceller fut = Some task_cancel" and "result fut = None"
  shows "\<exists>hist' fut' t' w'.
     acquire_streams ss (map Image_arrives raws @ Cancel_requested # rest) e acc hist fut t w =
       (Raised CancelledError, hist', fut', t', w') \<and>
     state fut' = CANCELLED \<and> result fut' = None"
  using assms
proof (induction ss arbitrary: raws e acc hist fut t w)
  case Nil
  then show ?case by simp
next
  case (Cons s ss)
  show ?case
  proof (cases raws)
    case Nil
    from acquire_step_cancel [OF Cons.prems(4,5), of s ss rest e acc hist t w] Cons.prems(6) Nil
    show ?thesis by (auto simp del: acquire_streams.simps)
  next
    case (Cons raw raws')
    let ?e = "e - estimateAcquisitionTime s"
    let ?fut = "fut\<lparr>end_time := clock w (tick w) + ?e\<rparr>"
    let ?t = "image_listener (t\<lparr>current_stream := Some s,
           stream_log := stream_log t @ [Subscribe (sid s), Set_is_active (sid s) True]\<rparr>)"
    let ?w = "invoke_upd_callbacks ?fut (w\<lparr>tick := Suc (tick w)\<rparr>)"
    let ?acc = "acc @ map (\<lambda>d. d\<lparr>description := name s\<rparr>) raw"
    have step: "acquire_streams (s # ss) (map Image_arrives raws @ Cancel_requested # rest) e acc hist fut t w =
       acquire_streams ss (map Image_arrives raws' @ Cancel_requested # rest) ?e ?acc (hist @ [?e]) ?fut ?t ?w"
      using Cons.prems(2,3) Cons by (simp add: acquire_step_image del: acquire_streams.simps)
    have "\<exists>hist' fut' t' w'.
       acquire_streams ss (map Image_arrives raws' @ Cancel_requested # rest) ?e ?acc (hist @ [?e]) ?fut ?t ?w =
         (Raised CancelledError, hist', fut', t', w') \<and>
       state fut' = CANCELLED \<and> result fut' = None"
      using Cons.prems Cons by (intro Cons.IH) simp_all
    with step show ?thesis by (simp del: acquire_streams.simps)
  qed
qed


lemma foldl_update_map_of:
  "map_of (foldl (\<lambda>m s. AList.update s (f s) m) m ss) k =
     (if k \<in> set ss then Some (f k) else map_of m k)"
  by (induction ss arbitrary: m) (auto simp: update_conv')

lemma foldl_update_distinct:
  "distinct (map fst m) \<Longrightarrow> distinct (map fst (foldl (\<lambda>m s. AList.update s (f s) m) m ss))"
  by (induction ss arbitrary: m) (simp_all add: distinct_update)

lemma foldl_update_keys:
  "fst ` set (foldl (\<lambda>m s. AList.update s (f s) m) m ss) = set ss \<union> fst ` set m"
  by (induction ss arbitrary: m) (auto simp: dom_update)

lemma init_fields:
  "current_stream (AcquisitionTask_init ss) = None"
  "\<not> cancelled (AcquisitionTask_init ss)"
  "set (streams (AcquisitionTask_init ss)) = set ss"
  by (simp_all add: AcquisitionTask_init_def Let_def foldl_update_keys)

lemma init_lookup:
  "s \<in> set (streams (AcquisitionTask_init ss)) \<Longrightarrow>
   map_of (streamTimes (AcquisitionTask_init ss)) s = Some (estimateAcquisitionTime s)"
  by (simp add: AcquisitionTask_init_def Let_def foldl_update_keys foldl_update_map_of)

lemma sum_list_sort_key:
  fixes g :: "'a \<Rightarrow> real"
  shows "sum_list (map g (sort_key f xs)) = sum_list (map g xs)"
proof -
  have "mset (map g (sort_key f xs)) = mset (map g xs)" by simp
  then have "sum_mset (mset (map g (sort_key f xs))) = sum_mset (mset (map g xs))" by simp
  then show ?thesis unfolding sum_mset_sum_list .
qed

lemma init_sum:
  "sum_list (map snd (streamTimes (AcquisitionTask_init ss))) =
   sum_list (map estimateAcquisitionTime (streams (AcquisitionTask_init ss)))"
proof -
  let ?m = "foldl (\<lambda>m s. AList.update s (estimateAcquisitionTime s) m) [] ss"
  have d: "distinct (map fst ?m)" by (rule foldl_update_distinct) simp
  have "snd p = estimateAcquisitionTime (fst p)" if "p \<in> set ?m" for p
  proof -
    have "map_of ?m (fst p) = Some (snd p)"
      using map_of_is_SomeI [OF d, of "fst p" "snd p"] that by simp
    moreover from that have "fst p \<in> set ss"
      using foldl_update_keys [of estimateAcquisitionTime "[]" ss] by force
    ultimately show ?thesis by (simp add: foldl_update_map_of)
  qed
  then have "map snd ?m = map (estimateAcquisitionTime \<circ> fst) ?m"
    by (intro map_cong refl) simp
  then have "sum_list (map snd ?m) = sum_list (map (estimateAcquisitionTime \<circ> fst) ?m)"
    by (rule arg_cong)
  then show ?thesis by (simp add: AcquisitionTask_init_def Let_def sum_list_sort_key)
qed


lemma run_started:
  assumes "state fut = PENDING"
  shows "executeTask ns fut t w =
     (case run ns (fut\<lparr>state := RUNNING, start_time := clock w (tick w), end_time := clock w (tick w)\<rparr>)
              t (invoke_upd_callbacks
                   (fut\<lparr>state := RUNNING, start_time := clock w (tick w), end_time := clock w (tick w)\<rparr>)
                   (w\<lparr>tick := Suc (tick w)\<rparr>)) of
        (Returned res, hist, future, task, w) \<Rightarrow>
          (let (future, w) = set_result res future w in (Returned (), hist, future, task, w))
      | (Raised e, hist, future, task, w) \<Rightarrow>
          if e = CancelledError then (Returned (), hist, future, task, w)
          else (let (future, w) = set_exception e future w in (Returned (), hist, future, task, w))
      | (Blocked, hist, future, task, w) \<Rightarrow> (Blocked, hist, future, task, w))"
  using assms
  by (simp add: executeTask_def set_running_or_notify_cancel_def
      Future_set_running_or_notify_cancel_def time_time_def Let_def)


text \<open>
  C2: the task is started through \<^verbatim>\<open>_executeTask\<close> with the task's own
  \<^verbatim>\<open>cancel\<close> as canceller of the future. If \<^verbatim>\<open>cancel()\<close> is called on the future while
  the task waits for a stream, after any number of earlier streams have delivered, the
  future ends \<open>CANCELLED\<close> and its result is not set: the images collected so far are
  dropped.
\<close>

theorem cancel_mid_sequence:
  assumes "state fut = PENDING" and "task_canceller fut = Some task_cancel"
    and "result fut = None" and "t = AcquisitionTask_init ss"
    and "length raws < length (streams t)"
  shows "fst (executeTask (map Image_arrives raws @ Cancel_requested # rest) fut t w) = Returned () \<and>
         state (fst (snd (snd (executeTask (map Image_arrives raws @ Cancel_requested # rest) fut t w))))
           = CANCELLED \<and>
         result (fst (snd (snd (executeTask (map Image_arrives raws @ Cancel_requested # rest) fut t w))))
           = None"
proof -
  let ?ns = "map Image_arrives raws @ Cancel_requested # rest"
  let ?fut = "fut\<lparr>state := RUNNING, start_time := clock w (tick w), end_time := clock w (tick w)\<rparr>"
  let ?w = "invoke_upd_callbacks ?fut (w\<lparr>tick := Suc (tick w)\<rparr>)"
  let ?E = "sum_list (map estimateAcquisitionTime (streams t))"
  let ?fut2 = "?fut\<lparr>end_time := clock ?w (tick ?w) + ?E\<rparr>"
  let ?w2 = "invoke_upd_callbacks ?fut2 (?w\<lparr>tick := Suc (tick ?w)\<rparr>)"
  have run: "run ?ns ?fut t ?w = acquire_streams (streams t) ?ns ?E [] [?E] ?fut2 t ?w2"
    using assms(4) by (simp add: run_def init_fields init_sum Let_def time_time_def set_end_time_def)
  have nc: "\<not> cancelled t" and keys: "\<forall>s \<in> set (streams t).
      map_of (streamTimes t) s = Some (estimateAcquisitionTime s)"
    using assms(4) by (simp_all add: init_fields init_lookup)
  have f2: "state ?fut2 = RUNNING" "task_canceller ?fut2 = Some task_cancel" "result ?fut2 = None"
    using assms(2,3) by simp_all
  from acquire_cancel_mid [OF assms(5) nc keys f2, of rest ?E "[]" "[?E]" ?w2]
  obtain hist' fut' t' w' where
    a: "acquire_streams (streams t) ?ns ?E [] [?E] ?fut2 t ?w2 =
         (Raised CancelledError, hist', fut', t', w')"
    and s: "state fut' = CANCELLED" "result fut' = None"
    by blast
  show ?thesis
    unfolding run_started [OF assms(1)] run a using s by simp
qed



theorem cancel_mid_sequence_witness:
  "state fresh_future = PENDING \<and> task_canceller fresh_future = Some task_cancel \<and>
   result fresh_future = None \<and>
   length [[frame 0]] < length (streams (AcquisitionTask_init [stream_C, stream_A, stream_B])) \<and>
   state (fst (snd (snd (executeTask (map Image_arrives [[frame 0]] @ Cancel_requested # [])
      fresh_future (AcquisitionTask_init [stream_C, stream_A, stream_B]) (world_at 0))))) = CANCELLED \<and>
   result (fst (snd (snd (executeTask (map Image_arrives [[frame 0]] @ Cancel_requested # [])
      fresh_future (AcquisitionTask_init [stream_C, stream_A, stream_B]) (world_at 0))))) = None"
proof -
  have p: "state fresh_future = PENDING" "task_canceller fresh_future = Some task_cancel"
    "result fresh_future = None" by (simp_all add: fresh_future_def)
  have l: "length [[frame 0]] < length (streams (AcquisitionTask_init [stream_C, stream_A, stream_B]))"
    by (simp add: init_ABC)
  from cancel_mid_sequence [OF p refl l, of "[]" "world_at 0"] p l show ?thesis by blast
qed

section \<open>Properties of the calibration pipeline\<close>

lemma estimate_pos:
  assumes "0 < distance"
  shows "estimateOffsetTime et (Some distance) =
           Inr (min (log 2 (distance / ERR_MARGIN)) (real MAX_STEPS) * (et + 2))"
    and "estimateHoleDetectionTime et (Some distance) =
           Inr (min (log 2 (distance / ERR_MARGIN)) (real MAX_STEPS) * (et + 2))"
    and "estimateRotationAndScalingTime et (Some distance) =
           Inr (min (log 2 (distance / ERR_MARGIN)) (real MAX_STEPS) * (et + 2))"
  using assms
  by (simp_all add: estimateOffsetTime_def estimateHoleDetectionTime_def
      estimateRotationAndScalingTime_def math_log_def ERR_MARGIN_def log_def Let_def)

lemma log2_8: "log 2 8 = 3"
proof -
  have "log 2 (2 ^ 3) = 3" by (subst log_nat_power) simp_all
  then show ?thesis by simp
qed

lemma log2_ge_10: "1024 \<le> x \<Longrightarrow> 10 \<le> log 2 x"
proof -
  assume a: "1024 \<le> x"
  have "log 2 (2 ^ 10) = 10" by (subst log_nat_power) simp_all
  then have "log 2 1024 = 10" by simp
  moreover have "log 2 1024 \<le> log 2 x" using a by (subst log_le_cancel_iff) simp_all
  ultimately show ?thesis by simp
qed

text \<open>
  C9: for every exposure time \<open>et\<close> and every distance for which the logarithm exists,
  the duration estimators multiply \<open>et + 2\<close> by \<open>min (log\<^sub>2 (distance / ERR_MARGIN)) MAX_STEPS\<close>.
  At \<open>distance = 8 * ERR_MARGIN\<close> the step count is 3, and from \<open>2 ^ MAX_STEPS * ERR_MARGIN\<close>
  on it stays at \<open>MAX_STEPS = 10\<close>.
\<close>

theorem estimate_step_count:
  "(0 < distance \<longrightarrow>
      estimateOffsetTime et (Some distance) =
        Inr (min (log 2 (distance / ERR_MARGIN)) (real MAX_STEPS) * (et + 2)) \<and>
      estimateHoleDetectionTime et (Some distance) =
        Inr (min (log 2 (distance / ERR_MARGIN)) (real MAX_STEPS) * (et + 2)) \<and>
      estimateRotationAndScalingTime et (Some distance) =
        Inr (min (log 2 (distance / ERR_MARGIN)) (real MAX_STEPS) * (et + 2))) \<and>
   estimateOffsetTime et (Some (8 * ERR_MARGIN)) = Inr (3 * (et + 2)) \<and>
   (2 ^ MAX_STEPS * ERR_MARGIN \<le> distance \<longrightarrow>
      estimateOffsetTime et (Some distance) = Inr (10 * (et + 2)) \<and>
      estimateHoleDetectionTime et (Some distance) = Inr (10 * (et + 2))) \<and>
   MAX_STEPS = 10"
proof -
  have e: "0 < ERR_MARGIN" by (simp add: ERR_MARGIN_def)
  have a: "estimateOffsetTime et (Some (8 * ERR_MARGIN)) = Inr (3 * (et + 2))"
    using estimate_pos(1) [of "8 * ERR_MARGIN" et] e by (simp add: log2_8 MAX_STEPS_def)
  have b: "estimateOffsetTime et (Some distance) = Inr (10 * (et + 2)) \<and>
           estimateHoleDetectionTime et (Some distance) = Inr (10 * (et + 2))"
    if d: "2 ^ MAX_STEPS * ERR_MARGIN \<le> distance"
  proof -
    from d e have "1024 \<le> distance / ERR_MARGIN"
      by (simp add: MAX_STEPS_def pos_le_divide_eq)
    then have "10 \<le> log 2 (distance / ERR_MARGIN)" by (rule log2_ge_10)
    moreover have "0 < distance" using d e by (simp add: MAX_STEPS_def ERR_MARGIN_def)
    ultimately show ?thesis
      using estimate_pos(1,2) [of distance et] by (simp add: MAX_STEPS_def min_def)
  qed
  show ?thesis using a b estimate_pos [of distance et] by (simp add: MAX_STEPS_def)
qed

theorem estimate_step_count_witness:
  "(0::real) < 16 * ERR_MARGIN \<and>
   estimateHoleDetectionTime 1 (Some (16 * ERR_MARGIN)) = Inr 12 \<and>
   2 ^ MAX_STEPS * ERR_MARGIN \<le> 1 \<and>
   estimateOffsetTime 1 (Some 1) = Inr 30"
proof -
  have "log 2 (2 ^ 4) = 4" by (subst log_nat_power) simp_all
  then have l: "log 2 16 = 4" by simp
  have e: "0 < ERR_MARGIN" by (simp add: ERR_MARGIN_def)
  then have p: "(0::real) < 16 * ERR_MARGIN" by simp
  have q: "2 ^ MAX_STEPS * ERR_MARGIN \<le> 1" by (simp add: ERR_MARGIN_def MAX_STEPS_def)
  from estimate_step_count [of "16 * ERR_MARGIN" 1] p
  have "estimateHoleDetectionTime 1 (Some (16 * ERR_MARGIN)) =
          Inr (min (log 2 (16 * ERR_MARGIN / ERR_MARGIN)) (real MAX_STEPS) * (1 + 2))"
    by blast
  moreover have "16 * ERR_MARGIN / ERR_MARGIN = 16" using e by simp
  ultimately have a: "estimateHoleDetectionTime 1 (Some (16 * ERR_MARGIN)) = Inr 12"
    by (simp add: l MAX_STEPS_def)
  from estimate_step_count [of 1 1] q
  have b: "estimateOffsetTime 1 (Some 1) = Inr (10 * (1 + 2))" by blast
  show ?thesis using p a q b by simp
qed

text \<open>
  C7: while the conversion update has not finished, its canceller marks it cancelled,
  calls \<^verbatim>\<open>cancel()\<close> on the hole-detection, offset-alignment and rotation-scaling
  futures, all three and in that order, then waits for the completion event with a timeout
  of 10 seconds and returns True whether or not the event was set. Once the update has
  finished the canceller returns False and does nothing.
\<close>

theorem cancel_update_conversion:
  "(conversion_update_state future \<noteq> FINISHED \<longrightarrow>
      CancelUpdateConversion sub_cancel done_in_time future =
        (True,
         future\<lparr>conversion_update_state := CANCELLED,
                hole_detectionf := snd (sub_cancel (hole_detectionf future)),
                align_offsetf := snd (sub_cancel (align_offsetf future)),
                rotation_scalingf := snd (sub_cancel (rotation_scalingf future))\<rparr>,
         [Subfuture_cancel Hole_detection, Subfuture_cancel Align_offset,
          Subfuture_cancel Rotation_scaling,
          Done_wait 10 (done_is_set future \<or> done_in_time)])) \<and>
   (conversion_update_state future = FINISHED \<longrightarrow>
      CancelUpdateConversion sub_cancel done_in_time future = (False, future, []))"
  by (simp add: CancelUpdateConversion_def Let_def)

theorem cancel_update_conversion_witness:
  "conversion_update_state (conversion_example RUNNING) \<noteq> FINISHED \<and>
   CancelUpdateConversion CancelHoleDetection False (conversion_example RUNNING) =
     (True,
      \<lparr>conversion_update_state = CANCELLED, hole_detectionf = FINISHED,
       align_offsetf = CANCELLED, rotation_scalingf = CANCELLED, done_is_set = False\<rparr>,
      [Subfuture_cancel Hole_detection, Subfuture_cancel Align_offset,
       Subfuture_cancel Rotation_scaling, Done_wait 10 False]) \<and>
   conversion_update_state (conversion_example FINISHED) = FINISHED \<and>
   CancelUpdateConversion CancelHoleDetection True (conversion_example FINISHED) =
     (False, conversion_example FINISHED, [])"
  using cancel_update_conversion [of "conversion_example RUNNING" CancelHoleDetection False]
    cancel_update_conversion [of "conversion_example FINISHED" CancelHoleDetection True]
  by (simp add: conversion_example_def CancelHoleDetection_def)

lemma center_on_hole_trace:
  "\<exists>ext. snd (center_on_hole env et steps tab tr) = tr @ ext \<and> filter is_move_abs ext = []"
proof (induction env et steps tab tr rule: center_on_hole.induct)
  case (1 env et steps tab tr)
  show ?case
  proof (cases "cancelled_at env (Suc steps) \<or> steps \<ge> MAX_STEPS")
    case True
    then show ?thesis by (subst center_on_hole.simps) auto
  next
    case False
    note nf = this
    show ?thesis
    proof (cases "images env steps")
      case Hole_not_found
      then show ?thesis using nf by (subst center_on_hole.simps) auto
    next
      case (Hole_at x y)
      show ?thesis
      proof (cases "sqrt (x ^ 2 + y ^ 2) \<le> ERR_MARGIN")
        case True
        then show ?thesis using nf Hole_at by (subst center_on_hole.simps) auto
      next
        case far: False
        show ?thesis
        proof (cases "estimateHoleDetectionTime et (Some (sqrt (x ^ 2 + y ^ 2)))")
          case (Inl e)
          then show ?thesis using nf Hole_at far
            by (subst center_on_hole.simps) (auto simp: Let_def)
        next
          case (Inr est)
          from nf Hole_at far Inr
          have "\<exists>ext. snd (center_on_hole env et (Suc steps) (Some (x, y))
                    ((tr @ [Move_rel x y]) @ [End_time_estimate est])) =
                  ((tr @ [Move_rel x y]) @ [End_time_estimate est]) @ ext \<and>
                  filter is_move_abs ext = []"
            by (intro "1.IH" [of x y "(x, y)" "sqrt (x ^ 2 + y ^ 2)" _ "Suc steps" est]) auto
          then obtain ext where
            "snd (center_on_hole env et (Suc steps) (Some (x, y))
                    ((tr @ [Move_rel x y]) @ [End_time_estimate est])) =
                  ((tr @ [Move_rel x y]) @ [End_time_estimate est]) @ ext"
            "filter is_move_abs ext = []" by blast
          then show ?thesis using nf Hole_at far Inr
            by (subst center_on_hole.simps) (auto simp: Let_def)
        qed
      qed
    qed
  qed
qed

lemma detect_holes_length:
  "length (EXPECTED_HOLES (fst (snd (detect_holes hs envs et g tab tr)))) =
   length (EXPECTED_HOLES g)"
  by (induction hs arbitrary: g tab tr)
     (auto simp: Let_def split: prod.splits sum.splits option.splits)

lemma detect_holes_trace:
  "distinct hs \<Longrightarrow>
   \<exists>k ext. snd (snd (detect_holes hs envs et g tab tr)) = tr @ ext \<and>
     filter is_move_abs ext =
       map (\<lambda>h. Move_abs (fst (EXPECTED_HOLES g ! h)) (snd (EXPECTED_HOLES g ! h))) (take k hs) \<and>
     (hs \<noteq> [] \<and> \<not> cancelled_at (envs (hd hs)) 0 \<and> hd hs < length (EXPECTED_HOLES g) \<longrightarrow>
        take 1 ext = [Move_abs (fst (EXPECTED_HOLES g ! hd hs)) (snd (EXPECTED_HOLES g ! hd hs))])"
proof (induction hs arbitrary: g tab tr)
  case Nil
  then show ?case by simp
next
  case (Cons hole holes)
  let ?m = "Move_abs (fst (EXPECTED_HOLES g ! hole)) (snd (EXPECTED_HOLES g ! hole))"
  show ?case
  proof (cases "cancelled_at (envs hole) 0 \<or> hole \<ge> length (EXPECTED_HOLES g)")
    case True
    then have "snd (snd (detect_holes (hole # holes) envs et g tab tr)) = tr @ []"
      by (auto simp: Let_def)
    then show ?thesis using True by (intro exI [of _ 0] exI [of _ "[]"]) auto
  next
    case False
    obtain ext where c: "snd (center_on_hole (envs hole) et 0 tab (tr @ [?m])) = (tr @ [?m]) @ ext"
      and cf: "filter is_move_abs ext = []"
      using center_on_hole_trace by blast
    obtain r tr2 where r: "center_on_hole (envs hole) et 0 tab (tr @ [?m]) = (r, tr2)"
      by (cases "center_on_hole (envs hole) et 0 tab (tr @ [?m])")
    with c have tr2: "tr2 = tr @ ?m # ext" by simp
    show ?thesis
    proof (cases "\<exists>tx ty. r = Inr (Some (tx, ty))")
      case False
      then have "snd (snd (detect_holes (hole # holes) envs et g tab tr)) = tr @ ?m # ext"
        using \<open>\<not> (cancelled_at (envs hole) 0 \<or> hole \<ge> length (EXPECTED_HOLES g))\<close> r tr2
        by (auto simp: Let_def split: prod.splits sum.splits option.splits)
      then show ?thesis using cf
        by (intro exI [of _ 1] exI [of _ "?m # ext"]) auto
    next
      case True
      then obtain tx ty where rr: "r = Inr (Some (tx, ty))" by blast
      let ?g = "g\<lparr>EXPECTED_HOLES := (EXPECTED_HOLES g)
                   [hole := (fst (stage_position (envs hole)) + tx,
                             snd (stage_position (envs hole)) + ty)]\<rparr>"
      have step: "detect_holes (hole # holes) envs et g tab tr =
                  detect_holes holes envs et ?g (Some (tx, ty)) tr2"
        using \<open>\<not> (cancelled_at (envs hole) 0 \<or> hole \<ge> length (EXPECTED_HOLES g))\<close> r rr
        by (auto simp: Let_def split: prod.splits)
      from Cons.prems have d: "distinct holes" and nin: "hole \<notin> set holes" by simp_all
      from Cons.IH [OF d, of ?g "Some (tx, ty)" tr2]
      obtain k ext2 where e2: "snd (snd (detect_holes holes envs et ?g (Some (tx, ty)) tr2)) = tr2 @ ext2"
        and f2: "filter is_move_abs ext2 =
           map (\<lambda>h. Move_abs (fst (EXPECTED_HOLES ?g ! h)) (snd (EXPECTED_HOLES ?g ! h))) (take k holes)"
        by blast
      have "map (\<lambda>h. Move_abs (fst (EXPECTED_HOLES ?g ! h)) (snd (EXPECTED_HOLES ?g ! h))) (take k holes)
          = map (\<lambda>h. Move_abs (fst (EXPECTED_HOLES g ! h)) (snd (EXPECTED_HOLES g ! h))) (take k holes)"
      proof (intro map_cong refl)
        fix h assume "h \<in> set (take k holes)"
        then have "h \<in> set holes" by (rule in_set_takeD)
        with nin have "hole \<noteq> h" by auto
        then show "Move_abs (fst (EXPECTED_HOLES ?g ! h)) (snd (EXPECTED_HOLES ?g ! h)) =
                   Move_abs (fst (EXPECTED_HOLES g ! h)) (snd (EXPECTED_HOLES g ! h))"
          by simp
      qed
      with f2 have f3: "filter is_move_abs ext2 =
          map (\<lambda>h. Move_abs (fst (EXPECTED_HOLES g ! h)) (snd (EXPECTED_HOLES g ! h))) (take k holes)"
        by simp
      have "snd (snd (detect_holes (hole # holes) envs et g tab tr)) = tr @ (?m # ext @ ext2)"
        using step e2 tr2 by simp
      then show ?thesis using cf f3
        by (intro exI [of _ "Suc k"] exI [of _ "?m # ext @ ext2"]) auto
    qed
  qed
qed


lemma two_holes: "[0..<NUMBER_OF_HOLES] = [0, 1]"
  by (simp add: NUMBER_OF_HOLES_def numeral_2_eq_2 upt_rec)

text \<open>
  C10: hole detection writes into the module-level table \<^verbatim>\<open>EXPECTED_HOLES\<close>. After a
  run that returned the holes \<open>first\<close> and \<open>second\<close>, the table holds exactly these
  two found positions, and every absolute move of any later run goes to them, in this
  order: a later run that is not cancelled at once first moves to \<open>first\<close>. The witness
  is a run after which the table differs from the configured constants.
\<close>

theorem hole_detection_overwrites_expected_holes:
  assumes "DoHoleDetection envs et fin g = (Inr (first, second), g', tr)"
    and "length (EXPECTED_HOLES g) = 2"
  shows "EXPECTED_HOLES g' = [first, second] \<and>
         prefix (filter is_move_abs (snd (snd (DoHoleDetection envs2 et2 fin2 g'))))
           [Move_abs (fst first) (snd first), Move_abs (fst second) (snd second)] \<and>
         (\<not> cancelled_at (envs2 0) 0 \<longrightarrow>
            take 1 (snd (snd (DoHoleDetection envs2 et2 fin2 g'))) =
              [Move_abs (fst first) (snd first)])"
proof -
  obtain err g1 tr1 where d: "detect_holes [0..<NUMBER_OF_HOLES] envs et g None [] = (err, g1, tr1)"
    by (cases "detect_holes [0..<NUMBER_OF_HOLES] envs et g None []")
  from assms(1) d have g1: "g1 = g'" and res: "first = EXPECTED_HOLES g' ! 0"
    "second = EXPECTED_HOLES g' ! 1"
    by (auto simp: DoHoleDetection_def Let_def split: if_splits option.splits)
  have "length (EXPECTED_HOLES g1) = length (EXPECTED_HOLES g)"
    using detect_holes_length [of "[0..<NUMBER_OF_HOLES]" envs et g None "[]"] d by simp
  with g1 assms(2) have len: "length (EXPECTED_HOLES g') = 2" by simp
  then obtain a b where ab: "EXPECTED_HOLES g' = [a, b]"
    by (cases "EXPECTED_HOLES g'"; cases "tl (EXPECTED_HOLES g')") auto
  with res have holes: "EXPECTED_HOLES g' = [first, second]" by simp
  have tr2: "snd (snd (DoHoleDetection envs2 et2 fin2 g')) =
             snd (snd (detect_holes [0, 1] envs2 et2 g' None []))"
    by (simp add: DoHoleDetection_def Let_def two_holes split: prod.splits)
  have "distinct [0::nat, 1]" by simp
  from detect_holes_trace [OF this, of envs2 et2 g' None "[]"]
  obtain k ext where e: "snd (snd (detect_holes [0, 1] envs2 et2 g' None [])) = ext"
    and f: "filter is_move_abs ext =
       map (\<lambda>h. Move_abs (fst (EXPECTED_HOLES g' ! h)) (snd (EXPECTED_HOLES g' ! h))) (take k [0, 1])"
    and h: "\<not> cancelled_at (envs2 0) 0 \<longrightarrow>
        take 1 ext = [Move_abs (fst (EXPECTED_HOLES g' ! 0)) (snd (EXPECTED_HOLES g' ! 0))]"
    using len by auto
  have "prefix (take k [0::nat, 1]) [0, 1]" by (rule take_is_prefix)
  then have "prefix (map (\<lambda>h. Move_abs (fst (EXPECTED_HOLES g' ! h)) (snd (EXPECTED_HOLES g' ! h)))
                       (take k [0, 1]))
               (map (\<lambda>h. Move_abs (fst (EXPECTED_HOLES g' ! h)) (snd (EXPECTED_HOLES g' ! h))) [0, 1])"
    by (rule map_mono_prefix)
  with f have "prefix (filter is_move_abs ext)
      [Move_abs (fst first) (snd first), Move_abs (fst second) (snd second)]"
    by (simp add: holes)
  with holes tr2 e h show ?thesis by (simp add: holes)
qed

lemma first_run:
  "DoHoleDetection first_run_envs 1 False initial_globals =
     (Inr ((1 / 10 ^ 3, 12 / 10 ^ 3), (- (1 / 10 ^ 3), - (10 / 10 ^ 3))), found_globals,
      [Move_abs 0 (11 / 10 ^ 3), Move_abs 0 (- (11 / 10 ^ 3))])"
  by (simp add: DoHoleDetection_def two_holes initial_globals_def found_globals_def
      first_run_envs_def centred_env_def center_on_hole.simps ERR_MARGIN_def MAX_STEPS_def)

theorem hole_detection_overwrites_expected_holes_witness:
  "DoHoleDetection first_run_envs 1 False initial_globals =
     (Inr ((1 / 10 ^ 3, 12 / 10 ^ 3), (- (1 / 10 ^ 3), - (10 / 10 ^ 3))), found_globals,
      [Move_abs 0 (11 / 10 ^ 3), Move_abs 0 (- (11 / 10 ^ 3))]) \<and>
   length (EXPECTED_HOLES initial_globals) = 2 \<and>
   EXPECTED_HOLES found_globals \<noteq> EXPECTED_HOLES initial_globals \<and>
   \<not> cancelled_at (first_run_envs 0) 0 \<and>
   take 1 (snd (snd (DoHoleDetection first_run_envs 1 False found_globals))) =
     [Move_abs (1 / 10 ^ 3) (12 / 10 ^ 3)]"
proof -
  have len: "length (EXPECTED_HOLES initial_globals) = 2" by (simp add: initial_globals_def)
  have nc: "\<not> cancelled_at (first_run_envs 0) 0"
    by (simp add: first_run_envs_def centred_env_def)
  have ne: "EXPECTED_HOLES found_globals \<noteq> EXPECTED_HOLES initial_globals"
    by (simp add: found_globals_def initial_globals_def)
  from hole_detection_overwrites_expected_holes [OF first_run len, of first_run_envs 1 False] nc
  have "take 1 (snd (snd (DoHoleDetection first_run_envs 1 False found_globals))) =
     [Move_abs (1 / 10 ^ 3) (12 / 10 ^ 3)]" by simp
  with first_run len ne nc show ?thesis by blast
qed

section \<open>Properties of the camera acquisition loop\<close>

lemma poll_status_trace:
  "fst (poll_status s rs tr) = fst (poll_status s rs []) \<and>
   deliveries (snd (poll_status s rs tr)) = deliveries tr"
proof (induction rs arbitrary: s tr)
  case Nil
  show ?case by (cases s) (simp_all add: deliveries_def)
next
  case (Cons r rs)
  show ?case
  proof (cases s)
    case None
    then show ?thesis by simp
  next
    case (Some st)
    show ?thesis
    proof (cases "st \<in> set STATUS_IN_PROGRESS \<and> \<not> timed_out r \<and> \<not> stop_seen r")
      case False
      then show ?thesis using Some by auto
    next
      case True
      from Cons.IH [of "next_status r" "tr @ [Check_status]"] Cons.IH [of "next_status r" "[Check_status]"]
      have "fst (poll_status (next_status r) rs (tr @ [Check_status])) =
            fst (poll_status (next_status r) rs [Check_status])"
        and "deliveries (snd (poll_status (next_status r) rs (tr @ [Check_status]))) =
             deliveries tr"
        by (simp_all add: deliveries_def)
      then show ?thesis using True Some by simp
    qed
  qed
qed

lemma perform_fields:
  "perform r as st = (b, st') \<Longrightarrow>
   retries st' = retries st \<and> cbuffer st' = cbuffer st \<and> need_reinit st' = need_reinit st \<and>
   (Callback \<notin> set as \<longrightarrow> deliveries (trace st') = deliveries (trace st)) \<and>
   (r = None \<longrightarrow> \<not> b \<and> trace st' = trace st @ as)"
proof (induction as arbitrary: st)
  case Nil
  then show ?case by auto
next
  case (Cons a as)
  show ?case
  proof (cases "r = Some a")
    case True
    with Cons.prems show ?thesis by (auto simp: Let_def deliveries_def)
  next
    case False
    with Cons.prems have "perform r as (st\<lparr>trace := trace st @ [a]\<rparr>) = (b, st')"
      by (simp add: Let_def)
    from Cons.IH [OF this] show ?thesis by (auto simp: deliveries_def)
  qed
qed

lemma rearm_fields:
  assumes "rearm env st = (b, st')"
  shows "retries st' = retries st \<and> deliveries (trace st') = deliveries (trace st) \<and>
         (raises_at env = None \<longrightarrow> \<not> b \<and> \<not> need_reinit st')"
proof -
  define st1 where "st1 = (case reinit_status env of
                  Some s \<Rightarrow> if s \<in> set STATUS_IN_PROGRESS
                            then st\<lparr>trace := trace st @ [Check_status, Abort]\<rparr>
                            else st\<lparr>trace := trace st @ [Check_status]\<rparr>
                | None \<Rightarrow> st\<lparr>trace := trace st @ [Check_status]\<rparr>)"
  define calls where "calls = (if buffer_true (cbuffer st1) then [Finish_seq, Uninit_seq] else []) @
                 [Get_temperature] @
                 (if camera_gone env then [Reinitialize] else []) @
                 [Update_settings, Init_seq, Setup_seq]"
  have s1: "retries st1 = retries st" "deliveries (trace st1) = deliveries (trace st)"
    by (auto simp: st1_def deliveries_def split: option.splits)
  have nc: "Callback \<notin> set calls" by (simp add: calls_def)
  obtain b2 st2 where p2: "perform (raises_at env) calls st1 = (b2, st2)"
    by (cases "perform (raises_at env) calls st1")
  note f2 = perform_fields [OF p2]
  obtain b3 st3 where p3: "perform (raises_at env) [Get_readout_time]
      (st2\<lparr>cbuffer := Some (blength env div 2)\<rparr>) = (b3, st3)"
    by (cases "perform (raises_at env) [Get_readout_time] (st2\<lparr>cbuffer := Some (blength env div 2)\<rparr>)")
  note f3 = perform_fields [OF p3]
  have r: "rearm env st = (if b2 then (True, st2) else if b3 then (True, st3)
                           else (False, st3\<lparr>need_reinit := False\<rparr>))"
  proof -
    have e: "rearm env st =
       (case perform (raises_at env) calls st1 of
           (True, st) \<Rightarrow> (True, st)
         | (False, st) \<Rightarrow>
             (case perform (raises_at env) [Get_readout_time]
                     (st\<lparr>cbuffer := Some (blength env div 2)\<rparr>) of
                   (True, st) \<Rightarrow> (True, st)
                 | (False, st) \<Rightarrow> (False, st\<lparr>need_reinit := False\<rparr>)))"
      unfolding rearm_def st1_def calls_def Let_def
      by (cases "reinit_status env") simp_all
    show ?thesis unfolding e p2 by (cases b2; cases b3) (simp_all add: p3 del: perform.simps)
  qed
  show ?thesis
  proof (cases b2)
    case True
    with assms r have "b = True" "st' = st2" by simp_all
    with f2 s1 nc True show ?thesis by auto
  next
    case False
    note b2 = this
    show ?thesis
    proof (cases b3)
      case True
      with assms r b2 have "b = True" "st' = st3" by simp_all
      with f2 f3 s1 nc True show ?thesis by auto
    next
      case False
      with assms r b2 have "b = False" "st' = st3\<lparr>need_reinit := False\<rparr>" by simp_all
      with f2 f3 s1 nc show ?thesis by auto
    qed
  qed
qed


lemma deliveries_append [simp]: "deliveries (xs @ ys) = deliveries xs + deliveries ys"
  by (simp add: deliveries_def)

lemma deliveries_simps [simp]:
  "deliveries [] = 0" "deliveries (Callback # xs) = Suc (deliveries xs)"
  "a \<noteq> Callback \<Longrightarrow> deliveries (a # xs) = deliveries xs"
  by (simp_all add: deliveries_def)

lemma iteration_cases:
  obtains b1 st1 b2 st2 pr tr b3 st3 where
    "acquire_iteration env st =
       (if must_stop_set env then Exit_loop st
        else if b1 then Uncaught st1
        else if b2 then Uncaught st2
        else if stop_in_sleep env then Break st2
        else (case pr of
                Poll_stop \<Rightarrow> Break (st2\<lparr>trace := tr\<rparr>)
              | Poll_fault \<Rightarrow>
                  if retries st > 5 then Uncaught (st2\<lparr>trace := tr\<rparr>)
                  else Continue (st2\<lparr>trace := tr @ [Abort], retries := Suc (retries st),
                                    need_reinit := True\<rparr>)
              | Poll_complete \<Rightarrow> if b3 then Uncaught st3 else Continue st3))"
    and "raises_at env = None \<longrightarrow> \<not> b1 \<and> \<not> b2 \<and> \<not> b3"
    and "deliveries (trace st1) = deliveries (trace st)"
    and "deliveries (trace st2) = deliveries (trace st)"
    and "deliveries tr = deliveries (trace st)"
    and "pr = fst (poll_status (poll_first env) (poll_rounds env) [])"
    and "retries st3 = 0"
    and "\<not> b3 \<longrightarrow> deliveries (trace st3) = Suc (deliveries (trace st))"
proof -
  obtain b1 st1 where r1: "(if need_reinit st \<or> settings_changed env then rearm env st
                            else (False, st)) = (b1, st1)"
    by (cases "if need_reinit st \<or> settings_changed env then rearm env st else (False, st)")
  have f1: "retries st1 = retries st" "deliveries (trace st1) = deliveries (trace st)"
    "raises_at env = None \<longrightarrow> \<not> b1"
    using r1 rearm_fields [of env st b1 st1] by (auto split: if_splits)
  obtain b2 st2 where r2: "perform (raises_at env) [Start_seq] st1 = (b2, st2)"
    by (cases "perform (raises_at env) [Start_seq] st1")
  from perform_fields [OF r2] f1
  have f2: "retries st2 = retries st" "deliveries (trace st2) = deliveries (trace st)"
    "raises_at env = None \<longrightarrow> \<not> b2" by auto
  obtain pr tr where r3: "poll_status (poll_first env) (poll_rounds env)
                            (trace st2 @ [Check_status]) = (pr, tr)"
    by (cases "poll_status (poll_first env) (poll_rounds env) (trace st2 @ [Check_status])")
  from poll_status_trace [of "poll_first env" "poll_rounds env" "trace st2 @ [Check_status]"] r3 f2
  have f3: "pr = fst (poll_status (poll_first env) (poll_rounds env) [])"
    "deliveries tr = deliveries (trace st)" by simp_all
  obtain b3 st3 where r4: "perform (raises_at env) [Callback]
                             (st2\<lparr>trace := tr, retries := 0\<rparr>) = (b3, st3)"
    by (cases "perform (raises_at env) [Callback] (st2\<lparr>trace := tr, retries := 0\<rparr>)")
  from perform_fields [OF r4]
  have f4: "retries st3 = 0" "raises_at env = None \<longrightarrow> \<not> b3" by auto
  from r4 f3 have f5: "\<not> b3 \<longrightarrow> deliveries (trace st3) = Suc (deliveries (trace st))"
    by (auto simp: Let_def split: if_splits)
  have e: "acquire_iteration env st =
       (if must_stop_set env then Exit_loop st
        else if b1 then Uncaught st1
        else if b2 then Uncaught st2
        else if stop_in_sleep env then Break st2
        else (case pr of
                Poll_stop \<Rightarrow> Break (st2\<lparr>trace := tr\<rparr>)
              | Poll_fault \<Rightarrow>
                  if retries st > 5 then Uncaught (st2\<lparr>trace := tr\<rparr>)
                  else Continue (st2\<lparr>trace := tr @ [Abort], retries := Suc (retries st),
                                    need_reinit := True\<rparr>)
              | Poll_complete \<Rightarrow> if b3 then Uncaught st3 else Continue st3))"
    unfolding acquire_iteration_def r1 r2
    by (cases b1; cases b2; cases pr; cases b3)
       (simp_all add: r2 r3 r4 f2 del: perform.simps poll_status.simps)
  show ?thesis using that [OF e] f1 f2 f3 f4 f5 by blast
qed

lemma faulty_step:
  assumes "faulty env" and "retries st \<le> 5"
  shows "\<exists>st'. acquire_iteration env st = Continue st' \<and> retries st' = Suc (retries st) \<and>
           need_reinit st' \<and> deliveries (trace st') = deliveries (trace st)"
proof -
  obtain b1 st1 b2 st2 pr tr b3 st3 where c:
    "acquire_iteration env st =
       (if must_stop_set env then Exit_loop st
        else if b1 then Uncaught st1
        else if b2 then Uncaught st2
        else if stop_in_sleep env then Break st2
        else (case pr of
                Poll_stop \<Rightarrow> Break (st2\<lparr>trace := tr\<rparr>)
              | Poll_fault \<Rightarrow>
                  if retries st > 5 then Uncaught (st2\<lparr>trace := tr\<rparr>)
                  else Continue (st2\<lparr>trace := tr @ [Abort], retries := Suc (retries st),
                                    need_reinit := True\<rparr>)
              | Poll_complete \<Rightarrow> if b3 then Uncaught st3 else Continue st3))"
    "raises_at env = None \<longrightarrow> \<not> b1 \<and> \<not> b2 \<and> \<not> b3"
    "deliveries (trace st1) = deliveries (trace st)"
    "deliveries (trace st2) = deliveries (trace st)"
    "deliveries tr = deliveries (trace st)"
    "pr = fst (poll_status (poll_first env) (poll_rounds env) [])"
    "retries st3 = 0"
    "\<not> b3 \<longrightarrow> deliveries (trace st3) = Suc (deliveries (trace st))"
    by (rule iteration_cases)
  from assms c show ?thesis by (simp add: faulty_def reaches_wait_def)
qed

lemma faulty_fatal:
  assumes "faulty env" and "retries st > 5"
  shows "\<exists>st'. acquire_iteration env st = Uncaught st' \<and>
           deliveries (trace st') = deliveries (trace st)"
proof -
  obtain b1 st1 b2 st2 pr tr b3 st3 where c:
    "acquire_iteration env st =
       (if must_stop_set env then Exit_loop st
        else if b1 then Uncaught st1
        else if b2 then Uncaught st2
        else if stop_in_sleep env then Break st2
        else (case pr of
                Poll_stop \<Rightarrow> Break (st2\<lparr>trace := tr\<rparr>)
              | Poll_fault \<Rightarrow>
                  if retries st > 5 then Uncaught (st2\<lparr>trace := tr\<rparr>)
                  else Continue (st2\<lparr>trace := tr @ [Abort], retries := Suc (retries st),
                                    need_reinit := True\<rparr>)
              | Poll_complete \<Rightarrow> if b3 then Uncaught st3 else Continue st3))"
    "raises_at env = None \<longrightarrow> \<not> b1 \<and> \<not> b2 \<and> \<not> b3"
    "deliveries (trace st1) = deliveries (trace st)"
    "deliveries (trace st2) = deliveries (trace st)"
    "deliveries tr = deliveries (trace st)"
    "pr = fst (poll_status (poll_first env) (poll_rounds env) [])"
    "retries st3 = 0"
    "\<not> b3 \<longrightarrow> deliveries (trace st3) = Suc (deliveries (trace st))"
    by (rule iteration_cases)
  from assms c show ?thesis by (simp add: faulty_def reaches_wait_def)
qed

lemma successful_step:
  assumes "successful env"
  shows "\<exists>st'. acquire_iteration env st = Continue st' \<and> retries st' = 0 \<and>
           deliveries (trace st') = Suc (deliveries (trace st))"
proof -
  obtain b1 st1 b2 st2 pr tr b3 st3 where c:
    "acquire_iteration env st =
       (if must_stop_set env then Exit_loop st
        else if b1 then Uncaught st1
        else if b2 then Uncaught st2
        else if stop_in_sleep env then Break st2
        else (case pr of
                Poll_stop \<Rightarrow> Break (st2\<lparr>trace := tr\<rparr>)
              | Poll_fault \<Rightarrow>
                  if retries st > 5 then Uncaught (st2\<lparr>trace := tr\<rparr>)
                  else Continue (st2\<lparr>trace := tr @ [Abort], retries := Suc (retries st),
                                    need_reinit := True\<rparr>)
              | Poll_complete \<Rightarrow> if b3 then Uncaught st3 else Continue st3))"
    "raises_at env = None \<longrightarrow> \<not> b1 \<and> \<not> b2 \<and> \<not> b3"
    "deliveries (trace st1) = deliveries (trace st)"
    "deliveries (trace st2) = deliveries (trace st)"
    "deliveries tr = deliveries (trace st)"
    "pr = fst (poll_status (poll_first env) (poll_rounds env) [])"
    "retries st3 = 0"
    "\<not> b3 \<longrightarrow> deliveries (trace st3) = Suc (deliveries (trace st))"
    by (rule iteration_cases)
  from assms c show ?thesis by (simp add: successful_def reaches_wait_def)
qed


lemma acquire_loop_append:
  "acquire_loop (xs @ ys) st =
     (case acquire_loop xs st of (None, st') \<Rightarrow> acquire_loop ys st' | (Some e, st') \<Rightarrow> (Some e, st'))"
  by (induction xs arbitrary: st) (auto split: step.splits)


lemma loop_faults:
  assumes "\<forall>env \<in> set faults. faulty env" and "retries st + length faults \<le> 6"
  shows "\<exists>st'. acquire_loop faults st = (None, st') \<and>
           retries st' = retries st + length faults \<and>
           deliveries (trace st') = deliveries (trace st)"
  using assms
proof (induction faults arbitrary: st)
  case Nil
  then show ?case by simp
next
  case (Cons env faults)
  from Cons.prems have f: "faulty env" and r: "retries st \<le> 5" by simp_all
  from faulty_step [OF f r] obtain st1 where
    s1: "acquire_iteration env st = Continue st1" "retries st1 = Suc (retries st)"
    "deliveries (trace st1) = deliveries (trace st)" by blast
  from Cons.prems s1 have "\<forall>env \<in> set faults. faulty env" "retries st1 + length faults \<le> 6"
    by simp_all
  from Cons.IH [OF this] s1 show ?case by auto
qed

lemma teardown_deliveries [simp]: "deliveries (teardown final_status st) = 0"
  by (simp add: teardown_def split: option.splits)

lemma faulty_fault_pass: "faulty fault_pass"
  by (simp add: faulty_def reaches_wait_def fault_pass_def good_pass_def STATUS_IN_PROGRESS_def)

lemma successful_good_pass: "successful good_pass"
  by (simp add: successful_def reaches_wait_def good_pass_def STATUS_IN_PROGRESS_def)

text \<open>
  C1, as stated: six consecutive transient faults end the loop with a fatal error and no
  further frame is delivered. It fails: after six consecutive faults the loop is still
  running, and the pass that follows delivers its frame.
\<close>

theorem six_faults_counterexample:
  "fst (acquire_thread_run (replicate 6 fault_pass @ [good_pass]) None) = None \<and>
   deliveries (snd (acquire_thread_run (replicate 6 fault_pass @ [good_pass]) None)) = 1"
proof -
  have "\<forall>env \<in> set (replicate 6 fault_pass). faulty env" by (simp add: faulty_fault_pass)
  moreover have "retries initial_state + length (replicate 6 fault_pass) \<le> 6"
    by (simp add: initial_state_def)
  ultimately obtain st where
    l: "acquire_loop (replicate 6 fault_pass) initial_state = (None, st)"
    and d: "deliveries (trace st) = deliveries (trace initial_state)"
    using loop_faults by blast
  from successful_step [OF successful_good_pass, of st] obtain st' where
    g: "acquire_iteration good_pass st = Continue st'"
    "deliveries (trace st') = Suc (deliveries (trace st))" by blast
  have "acquire_loop (replicate 6 fault_pass @ [good_pass]) initial_state = (None, st')"
    unfolding acquire_loop_append l using g by simp
  then show ?thesis using g d
    by (simp add: acquire_thread_run_def run_from_def initial_state_def)
qed

text \<open>
  C1, amended: a pass that delivers a frame resets the retry counter to 0, so up to six
  consecutive transient faults followed by a success leave the loop running with the
  counter at 0 and one more frame delivered. A fault is retried as long as the counter is
  at most 5 when it occurs: starting from a counter of 0, six consecutive faults bring it
  to 6 and the seventh ends the loop with a failure, after which no frame is delivered.
\<close>

theorem retry_counter_escalation:
  assumes "\<forall>env \<in> set faults. faulty env" and "successful good" and "retries st = 0"
  shows "(length faults \<le> 6 \<longrightarrow>
            (\<exists>st'. acquire_loop faults st = (None, st') \<and> retries st' = length faults \<and>
                   deliveries (trace st') = deliveries (trace st)) \<and>
            (\<exists>st'. acquire_loop (faults @ [good]) st = (None, st') \<and> retries st' = 0 \<and>
                   deliveries (trace st') = Suc (deliveries (trace st)))) \<and>
         (length faults = 7 \<longrightarrow>
            fst (run_from st (faults @ rest) final_status) = Some Failed \<and>
            deliveries (snd (run_from st (faults @ rest) final_status)) = deliveries (trace st))"
proof (intro conjI impI)
  assume len: "length faults \<le> 6"
  with assms(1,3) loop_faults [of faults st] obtain st1 where
    l: "acquire_loop faults st = (None, st1)" "retries st1 = length faults"
    "deliveries (trace st1) = deliveries (trace st)" by auto
  then show "\<exists>st'. acquire_loop faults st = (None, st') \<and> retries st' = length faults \<and>
                   deliveries (trace st') = deliveries (trace st)" by blast
  from successful_step [OF assms(2), of st1] obtain st2 where
    g: "acquire_iteration good st1 = Continue st2" "retries st2 = 0"
    "deliveries (trace st2) = Suc (deliveries (trace st1))" by blast
  have "acquire_loop (faults @ [good]) st = (None, st2)"
    unfolding acquire_loop_append l(1) using g by simp
  with g l show "\<exists>st'. acquire_loop (faults @ [good]) st = (None, st') \<and> retries st' = 0 \<and>
                   deliveries (trace st') = Suc (deliveries (trace st))" by simp
next
  assume len: "length faults = 7"
  then obtain env where fs: "faults = take 6 faults @ [env]" "env \<in> set faults"
    by (metis append_butlast_last_id butlast_conv_take diff_Suc_1 last_in_set length_0_conv
        numeral_eq_Suc pred_numeral_simps(3) zero_neq_numeral)
  have "\<forall>env \<in> set (take 6 faults). faulty env" using assms(1) by (auto dest: in_set_takeD)
  moreover have "retries st + length (take 6 faults) \<le> 6" using assms(3) len by simp
  ultimately obtain st1 where
    l: "acquire_loop (take 6 faults) st = (None, st1)" "retries st1 = retries st + length (take 6 faults)"
    "deliveries (trace st1) = deliveries (trace st)" using loop_faults by blast
  with len assms(3) have "retries st1 > 5" by simp
  moreover have "faulty env" using fs(2) assms(1) by blast
  ultimately obtain st2 where
    u: "acquire_iteration env st1 = Uncaught st2" "deliveries (trace st2) = deliveries (trace st1)"
    using faulty_fatal by blast
  have "acquire_loop (faults @ rest) st = acquire_loop (take 6 faults @ env # rest) st"
    using fs(1) by (metis append.assoc append_Cons append_Nil)
  also have "\<dots> = (Some Failed, st2)"
    unfolding acquire_loop_append l(1) using u by simp
  finally have r: "acquire_loop (faults @ rest) st = (Some Failed, st2)" .
  show "fst (run_from st (faults @ rest) final_status) = Some Failed"
    by (simp add: run_from_def r)
  show "deliveries (snd (run_from st (faults @ rest) final_status)) = deliveries (trace st)"
    using u l by (simp add: run_from_def r)
qed

theorem retry_counter_escalation_witness:
  "faulty fault_pass \<and> successful good_pass \<and> retries initial_state = 0 \<and>
   length (replicate 3 fault_pass) \<le> 6 \<and>
   (\<exists>st'. acquire_loop (replicate 3 fault_pass @ [good_pass]) initial_state = (None, st') \<and>
          retries st' = 0 \<and> deliveries (trace st') = 1) \<and>
   length (replicate 7 fault_pass) = 7 \<and>
   fst (acquire_thread_run (replicate 7 fault_pass @ [good_pass]) None) = Some Failed \<and>
   deliveries (snd (acquire_thread_run (replicate 7 fault_pass @ [good_pass]) None)) = 0"
proof -
  have f3: "\<forall>env \<in> set (replicate 3 fault_pass). faulty env"
    and f7: "\<forall>env \<in> set (replicate 7 fault_pass). faulty env"
    by (simp_all add: faulty_fault_pass)
  have r0: "retries initial_state = 0" and d0: "deliveries (trace initial_state) = 0"
    by (simp_all add: initial_state_def)
  from retry_counter_escalation [OF f3 successful_good_pass r0, of "[]" None] d0
  have a: "\<exists>st'. acquire_loop (replicate 3 fault_pass @ [good_pass]) initial_state = (None, st') \<and>
          retries st' = 0 \<and> deliveries (trace st') = 1" by simp
  from retry_counter_escalation [OF f7 successful_good_pass r0, of "[good_pass]" None] d0
  have b: "fst (acquire_thread_run (replicate 7 fault_pass @ [good_pass]) None) = Some Failed \<and>
   deliveries (snd (acquire_thread_run (replicate 7 fault_pass @ [good_pass]) None)) = 0"
    by (simp add: acquire_thread_run_def)
  from faulty_fault_pass r0 a b successful_good_pass show ?thesis by simp
qed





end
